theory Spec2Isabelle
  imports Complex_Main "HOL-Library.Word"
begin

text \<open>
  A model of the block cache of a network stream (\<open>NetworkStream\<close>), of the reader's
  seek callback (\<open>seek_network_stream\<close>) and of one iteration of the downloader
  thread (\<open>NetworkStreamDownloader::downloader_thread\<close>), followed by the properties
  of the specification that were checked against it.

  The model is sequential: it describes what each function does to the state it is
  given. The mutexes, the sleeps, the log output and the interleaving of the reader
  thread with the downloader thread are not part of it.
\<close>

section \<open>Data model\<close>

text \<open>
  The unsigned 64-bit integers of the source (\<open>u64\<close>) are 64-bit words: addition,
  subtraction and multiplication wrap around, division and the order are unsigned.
\<close>

type_synonym u64 = "64 word"
type_synonym u8 = "8 word"

text \<open>
  The three build-time constants are declared in a header that is not part of the
  sources at hand, so every operation takes them as a parameter.
\<close>

record config =
  BLOCK_SIZE :: u64
  MAX_CACHE_BLOCKS :: nat
  MAX_FORWARD_READ_BLOCKS :: u64

text \<open>
  \<open>downloaded_data\<close> is a \<open>std::map<u64, std::vector<u8>>\<close>: an ordered map. It is
  modelled by its in-order traversal, a list of pairs with strictly increasing keys;
  \<open>begin()\<close> is the head of the list and \<open>std::prev(end())\<close> its last element.
\<close>

type_synonym block_map = "(u64 \<times> u8 list) list"

definition map_keys :: "block_map \<Rightarrow> u64 list" where
  "map_keys m = map fst m"

definition map_ok :: "block_map \<Rightarrow> bool" where
  "map_ok m = sorted_wrt (<) (map_keys m)"

definition map_count :: "block_map \<Rightarrow> u64 \<Rightarrow> bool" where
  "map_count m k = (map_of m k \<noteq> None)"

fun map_assign :: "u64 \<Rightarrow> u8 list \<Rightarrow> block_map \<Rightarrow> block_map" where
  "map_assign k v [] = [(k, v)]"
| "map_assign k v ((k', v') # m) =
     (if k < k' then (k, v) # (k', v') # m
      else if k = k' then (k, v) # m
      else (k', v') # map_assign k v m)"

text \<open>
  The class is declared in the missing header too. The record holds the fields that the
  functions modelled here read or write; the mutex, \<open>session_list\<close> and
  \<open>disable_interrupt\<close> are left out. \<open>network_waiting_status\<close> is a pointer to a C
  string or null, and the two sequence numbers hold what \<open>strtoll\<close> returns.
\<close>

record NetworkStream =
  url :: string
  whole_download :: bool
  read_head :: u64
  len :: u64
  block_num :: u64
  ready :: bool
  error :: bool
  quit_request :: bool
  suspend_request :: bool
  livestream_eof :: bool
  livestream_private :: bool
  seq_head :: int
  seq_id :: int
  network_waiting_status :: "string option"
  downloaded_data :: block_map

section \<open>NetworkStream::set_data\<close>

definition set_data :: "config \<Rightarrow> NetworkStream \<Rightarrow> u64 \<Rightarrow> u8 list \<Rightarrow> NetworkStream" where
  "set_data cfg s block dat =
     (let m = map_assign block dat (downloaded_data s) in
      if length m > MAX_CACHE_BLOCKS cfg then
        (let read_head_block = read_head s div BLOCK_SIZE cfg in
         if fst (hd m) < read_head_block
         then s\<lparr>downloaded_data := tl m\<rparr>
         else s\<lparr>downloaded_data := butlast m\<rparr>)
      else s\<lparr>downloaded_data := m\<rparr>)"


section \<open>NetworkStream::is_data_available\<close>

text \<open>
  The loop \<open>for (block = start_block; block <= end_block; block++)\<close> leaves at the
  first block that is not cached. Its counter is a \<open>u64\<close>, so \<open>block++\<close> wraps;
  with \<open>end_block = 2^64 - 1\<close> the condition never fails, and the loop is therefore
  a partial function: \<open>None\<close> stands for a loop that does not end.
\<close>

partial_function (option) is_data_available_loop :: "block_map \<Rightarrow> u64 \<Rightarrow> u64 \<Rightarrow> bool option" where
  "is_data_available_loop m block end_block =
     (if block \<le> end_block then
        (if \<not> map_count m block then Some False
         else is_data_available_loop m (block + 1) end_block)
      else Some True)"

definition is_data_available :: "config \<Rightarrow> NetworkStream \<Rightarrow> u64 \<Rightarrow> u64 \<Rightarrow> bool option" where
  "is_data_available cfg s start size' =
     (if \<not> ready s then Some False
      else if start + size' > len s then Some False
      else
        (let end' = start + size' - 1;
             start_block = start div BLOCK_SIZE cfg;
             end_block = end' div BLOCK_SIZE cfg
         in is_data_available_loop (downloaded_data s) start_block end_block))"

section \<open>NetworkStream::get_data\<close>

text \<open>
  \<open>get_data\<close> walks the map with an iterator. An iterator is modelled by the part of
  the traversal that starts at its position: \<open>end()\<close> is the empty list, \<open>itr++\<close>
  drops the head. A failed \<open>assert\<close> and the two undefined behaviours the function can
  run into (reading through \<open>end()\<close>, copying a range that leaves the block's vector)
  are results of their own.
\<close>

datatype failure = AssertionFailed | UndefinedBehaviour

definition map_find :: "block_map \<Rightarrow> u64 \<Rightarrow> block_map" where
  "map_find m k = dropWhile (\<lambda>p. fst p \<noteq> k) m"

definition slice :: "u8 list \<Rightarrow> nat \<Rightarrow> nat \<Rightarrow> u8 list" where
  "slice v l r = take (r - l) (drop l v)"

fun get_data_loop ::
  "u64 \<Rightarrow> u64 \<Rightarrow> u64 \<Rightarrow> u64 \<Rightarrow> u64 \<Rightarrow> block_map \<Rightarrow> u8 list \<Rightarrow> failure + u8 list" where
  "get_data_loop bs start end' end_block block [] res =
     (if block \<le> end_block then Inl UndefinedBehaviour else Inr res)"
| "get_data_loop bs start end' end_block block ((k, v) # itr) res =
     (if block \<le> end_block then
        (if k \<noteq> block then Inl AssertionFailed
         else
           (let cur_l = max start (block * bs) - block * bs;
                cur_r = min (end' + 1) ((block + 1) * bs) - block * bs
            in if cur_l \<le> cur_r \<and> unat cur_r \<le> length v
               then get_data_loop bs start end' end_block (block + 1) itr
                      (res @ slice v (unat cur_l) (unat cur_r))
               else Inl UndefinedBehaviour))
      else Inr res)"

definition get_data :: "config \<Rightarrow> NetworkStream \<Rightarrow> u64 \<Rightarrow> u64 \<Rightarrow> failure + u8 list" where
  "get_data cfg s start size' =
     (if \<not> ready s then Inr []
      else if size' = 0 then Inr []
      else
        (let end' = start + size' - 1;
             start_block = start div BLOCK_SIZE cfg;
             end_block = end' div BLOCK_SIZE cfg;
             itr = map_find (downloaded_data s) start_block
         in if itr = [] then Inl AssertionFailed
            else get_data_loop (BLOCK_SIZE cfg) start end' end_block start_block itr []))"

section \<open>NetworkStream::get_download_percentage\<close>

text \<open>
  The percentage is a \<open>double\<close>. Its model keeps the special values a division by
  zero produces and computes the finite ones in the reals, without rounding; the
  operands of this program are never negative.
\<close>

datatype double = Finite real | Infinity | NaN

fun double_div :: "double \<Rightarrow> double \<Rightarrow> double" where
  "double_div (Finite x) (Finite y) =
     (if y = 0 then (if x = 0 then NaN else Infinity) else Finite (x / y))"
| "double_div Infinity (Finite y) = Infinity"
| "double_div (Finite x) Infinity = Finite 0"
| "double_div _ _ = NaN"

fun double_mul :: "double \<Rightarrow> double \<Rightarrow> double" where
  "double_mul (Finite x) (Finite y) = Finite (x * y)"
| "double_mul Infinity (Finite y) = (if y = 0 then NaN else Infinity)"
| "double_mul (Finite x) Infinity = (if x = 0 then NaN else Infinity)"
| "double_mul Infinity Infinity = Infinity"
| "double_mul _ _ = NaN"

fun double_gt :: "double \<Rightarrow> double \<Rightarrow> bool" where
  "double_gt (Finite x) (Finite y) = (x > y)"
| "double_gt Infinity (Finite y) = True"
| "double_gt _ _ = False"

definition double_of_u64 :: "u64 \<Rightarrow> double" where
  "double_of_u64 x = Finite (real (unat x))"

definition get_download_percentage :: "config \<Rightarrow> NetworkStream \<Rightarrow> double" where
  "get_download_percentage cfg s =
     double_mul
       (double_div
          (double_mul (Finite (real (length (downloaded_data s)))) (double_of_u64 (BLOCK_SIZE cfg)))
          (double_of_u64 (len s)))
       (Finite 100)"

section \<open>seek_network_stream\<close>

text \<open>
  The callback returns an \<open>int64_t\<close>; the model returns its 64 bits, so that \<open>-1\<close> is
  the word of all ones. \<open>whence\<close> is one of the constants of the C library and of
  libavformat. The loop that waits for \<open>ready\<close> sleeps until another thread changes the
  stream; alone it either leaves at once or never, and the latter is \<open>None\<close>.
\<close>

type_synonym s64 = "64 word"

definition SEEK_SET :: int where "SEEK_SET = 0"
definition SEEK_CUR :: int where "SEEK_CUR = 1"
definition SEEK_END :: int where "SEEK_END = 2"
definition AVSEEK_SIZE :: int where "AVSEEK_SIZE = 65536"

partial_function (option) seek_wait_ready :: "NetworkStream \<Rightarrow> (NetworkStream + NetworkStream) option" where
  "seek_wait_ready s =
     (if \<not> ready s then
        (let s1 = s\<lparr>network_waiting_status := Some ''Reading stream (init, seek)''\<rparr>
         in if error s1 \<or> quit_request s1
            then Some (Inl (s1\<lparr>network_waiting_status := None\<rparr>))
            else seek_wait_ready s1)
      else Some (Inr s))"

definition seek_network_stream :: "NetworkStream \<Rightarrow> s64 \<Rightarrow> int \<Rightarrow> (s64 \<times> NetworkStream) option" where
  "seek_network_stream stream offset whence =
     (case seek_wait_ready stream of
        None \<Rightarrow> None
      | Some (Inl s) \<Rightarrow> Some (- 1, s)
      | Some (Inr s0) \<Rightarrow>
          (let s = s0\<lparr>network_waiting_status := None\<rparr> in
           if whence = AVSEEK_SIZE then Some (len s, s)
           else
             (let new_pos =
                    (if whence = SEEK_SET then offset
                     else if whence = SEEK_CUR then read_head s + offset
                     else if whence = SEEK_END then len s + offset
                     else 0)
              in if new_pos > len s then Some (- 1, s)
                 else Some (new_pos, s\<lparr>read_head := new_pos\<rparr>))))"

section \<open>The HTTP fetcher and the C library\<close>

text \<open>
  \<open>Access_http_get\<close> and its result type are declared outside the sources at hand. The
  fetcher is a parameter of the downloader; of its result the model keeps the fields the
  downloader reads, with \<open>get_header\<close> as a function from header names to values (the
  empty string for a header that is absent).
\<close>

record HttpResult =
  fail :: bool
  status_code :: int
  data :: "u8 list"
  error_text :: string
  redirected_url :: string
  get_header :: "string \<Rightarrow> string"

type_synonym http_get = "string \<Rightarrow> (string \<times> string) list \<Rightarrow> HttpResult"

text \<open>
  Modelled from the spec: \<open>status_code_is_success\<close> and the three status-code macros are
  declared in the missing network header. The spec gives "Success codes: any 2xx" and
  the codes \<open>204 No Content\<close>, \<open>404 Not Found\<close> and \<open>403 Forbidden\<close>.
\<close>

definition status_code_is_success :: "HttpResult \<Rightarrow> bool" where
  "status_code_is_success r = (status_code r div 100 = 2)"

definition HTTP_STATUS_CODE_NO_CONTENT :: int where "HTTP_STATUS_CODE_NO_CONTENT = 204"
definition HTTP_STATUS_CODE_NOT_FOUND :: int where "HTTP_STATUS_CODE_NOT_FOUND = 404"
definition HTTP_STATUS_CODE_FORBIDDEN :: int where "HTTP_STATUS_CODE_FORBIDDEN = 403"

text \<open>
  \<open>strtoll(s, &end, 10)\<close> of the C library: white space, an optional sign, decimal
  digits; the value saturates at the bounds of \<open>long long\<close>; without a digit the value
  is 0 and \<open>end\<close> is \<open>s\<close>. The result is the value and the text \<open>end\<close> points to.
\<close>

definition isspace :: "char \<Rightarrow> bool" where
  "isspace c = (c \<in> set [CHR '' '', CHR 0x09, CHR 0x0A, CHR 0x0B, CHR 0x0C, CHR 0x0D])"

definition isdigit :: "char \<Rightarrow> bool" where
  "isdigit c = (c \<in> set ''0123456789'')"

definition digit_value :: "char \<Rightarrow> int" where
  "digit_value c = int (of_char c) - 48"

definition strtoll :: "string \<Rightarrow> int \<times> string" where
  "strtoll s =
     (let s1 = dropWhile isspace s;
          neg = (s1 \<noteq> [] \<and> hd s1 = CHR ''-'');
          s2 = (if s1 \<noteq> [] \<and> (hd s1 = CHR ''-'' \<or> hd s1 = CHR ''+'') then tl s1 else s1);
          ds = takeWhile isdigit s2;
          v = foldl (\<lambda>a c. a * 10 + digit_value c) 0 ds
      in if ds = [] then (0, s)
         else (if neg then max (- (2 ^ 63)) (- v) else min (2 ^ 63 - 1) v, dropWhile isdigit s2))"

text \<open>\<open>strchr(s, c)\<close>: the text from the first \<open>c\<close> on, or a null pointer.\<close>

definition strchr :: "string \<Rightarrow> char \<Rightarrow> string option" where
  "strchr s c = (let r = dropWhile (\<lambda>x. x \<noteq> c) s in if r = [] then None else Some r)"

text \<open>\<open>std::to_string\<close> of an unsigned number: its decimal digits.\<close>

function to_string :: "nat \<Rightarrow> string" where
  "to_string n =
     (if n < 10 then [''0123456789'' ! n]
      else to_string (n div 10) @ [''0123456789'' ! (n mod 10)])"
  by pat_completeness auto
termination
  by (relation "measure id") auto

declare to_string.simps [simp del]

section \<open>NetworkStreamDownloader::downloader_thread\<close>

text \<open>
  The downloader holds its streams in a vector of pointers; a null pointer is a free
  slot. One run of the body of the thread's \<open>while\<close> loop is \<open>downloader_tick\<close>: it
  chooses a stream, performs one fetch and writes the outcome to the stream.
\<close>

record NetworkStreamDownloader =
  streams :: "NetworkStream option list"
  thread_exit_reqeusted :: bool

lemma unat_plus_one_less: "(a :: u64) < b \<Longrightarrow> unat (a + 1) = Suc (unat a)"
proof -
  assume "a < b"
  then have "unat a < unat b" by (simp add: word_less_nat_alt)
  moreover have "unat b < 2 ^ 64" using unsigned_less [of b] by simp
  ultimately have "unat a + 1 < 2 ^ 64" by simp
  then show ?thesis by (simp add: unat_word_ariths)
qed

text \<open>
  Lines 158 to 162: the first block from the read head on that is not cached, the search
  stopping at the end of the stream and at the end of the forward window.
\<close>

function first_not_downloaded_block :: "config \<Rightarrow> NetworkStream \<Rightarrow> u64 \<Rightarrow> u64 \<Rightarrow> u64" where
  "first_not_downloaded_block cfg s read_head_block b =
     (if b < block_num s \<and> map_count (downloaded_data s) b then
        (if b + 1 = read_head_block + MAX_FORWARD_READ_BLOCKS cfg then b + 1
         else first_not_downloaded_block cfg s read_head_block (b + 1))
      else b)"
  by pat_completeness auto
termination
  by (relation "measure (\<lambda>(cfg, s, r, b). unat (block_num s) - unat b)")
    (auto simp: unat_plus_one_less word_less_nat_alt)

declare first_not_downloaded_block.simps [simp del]

definition margin_percentage :: "config \<Rightarrow> NetworkStream \<Rightarrow> u64 \<Rightarrow> u64 \<Rightarrow> double" where
  "margin_percentage cfg s rh first_not_downloaded =
     (if first_not_downloaded = rh div BLOCK_SIZE cfg then Finite 0
      else double_mul
             (double_div (double_of_u64 (first_not_downloaded * BLOCK_SIZE cfg - rh))
                (double_of_u64 (len s)))
             (Finite 100))"

text \<open>
  Lines 141 to 174: the search for the stream to download next. \<open>cur\<close> is
  \<open>cur_stream_index\<close>, with \<open>None\<close> for \<open>(size_t) -1\<close>; a stream whose \<open>quit_request\<close> is
  set is deleted on the way.
\<close>

function find_next_stream ::
  "config \<Rightarrow> u64 list \<Rightarrow> nat \<Rightarrow> NetworkStream option list \<Rightarrow> double \<Rightarrow> nat option
     \<Rightarrow> NetworkStream option list \<times> nat option" where
  "find_next_stream cfg read_heads i ss margin_percentage_min cur =
     (if i < length ss then
        (case ss ! i of
           None \<Rightarrow> find_next_stream cfg read_heads (i + 1) ss margin_percentage_min cur
         | Some s \<Rightarrow>
             if quit_request s
             then find_next_stream cfg read_heads (i + 1) (ss[i := None]) margin_percentage_min cur
             else if error s
             then find_next_stream cfg read_heads (i + 1) ss margin_percentage_min cur
             else if suspend_request s
             then find_next_stream cfg read_heads (i + 1) ss margin_percentage_min cur
             else if \<not> ready s then (ss, Some i)
             else if whole_download s
             then find_next_stream cfg read_heads (i + 1) ss margin_percentage_min cur
             else
               (let read_head_block = read_heads ! i div BLOCK_SIZE cfg;
                    b = first_not_downloaded_block cfg s read_head_block read_head_block
                in if b = block_num s
                   then find_next_stream cfg read_heads (i + 1) ss margin_percentage_min cur
                   else if b = read_head_block + MAX_FORWARD_READ_BLOCKS cfg
                   then find_next_stream cfg read_heads (i + 1) ss margin_percentage_min cur
                   else if double_gt margin_percentage_min
                             (margin_percentage cfg s (read_heads ! i) b)
                   then find_next_stream cfg read_heads (i + 1) ss
                          (margin_percentage cfg s (read_heads ! i) b) (Some i)
                   else find_next_stream cfg read_heads (i + 1) ss margin_percentage_min cur))
      else (ss, cur))"
  by pat_completeness auto
termination
  by (relation "measure (\<lambda>(cfg, rhs, i, ss, m, c). length ss - i)") auto

declare find_next_stream.simps [simp del]

text \<open>Line 137: the read heads are copied first; a free slot leaves the initial 0.\<close>

definition backup_read_heads :: "NetworkStream option list \<Rightarrow> u64 list" where
  "backup_read_heads ss = map (\<lambda>p. case p of None \<Rightarrow> 0 | Some s \<Rightarrow> read_head s) ss"

text \<open>
  Lines 185 to 233, from the result of the request on. The loop that cuts the body into
  blocks does not end when \<open>BLOCK_SIZE\<close> is 0, so it is a partial function.
\<close>

partial_function (option) store_whole_data :: "config \<Rightarrow> u8 list \<Rightarrow> nat \<Rightarrow> NetworkStream \<Rightarrow> NetworkStream option" where
  "store_whole_data cfg dat i s =
     (if i < length dat then
        (let left = i;
             right = min (i + unat (BLOCK_SIZE cfg)) (length dat)
         in store_whole_data cfg dat (i + unat (BLOCK_SIZE cfg))
              (set_data cfg s (word_of_nat (i div unat (BLOCK_SIZE cfg))) (slice dat left right)))
      else Some s)"

definition acquire_headers :: "NetworkStream \<Rightarrow> HttpResult \<Rightarrow> NetworkStream" where
  "acquire_headers s0 result =
     (let value1 = get_header result ''x-head-seqnum'';
          s1 = s0\<lparr>seq_head := fst (strtoll value1)\<rparr>;
          s2 = (if snd (strtoll value1) \<noteq> [] \<or> value1 = []
                then s1\<lparr>seq_head := - 1, error := True\<rparr> else s1);
          value2 = get_header result ''x-sequence-num'';
          s3 = s2\<lparr>seq_id := fst (strtoll value2)\<rparr>
      in if snd (strtoll value2) \<noteq> [] \<or> value2 = []
         then s3\<lparr>seq_id := - 1, error := True\<rparr> else s3)"

definition whole_download_result :: "config \<Rightarrow> NetworkStream \<Rightarrow> HttpResult \<Rightarrow> NetworkStream option" where
  "whole_download_result cfg cur_stream result =
     (let s0 = cur_stream\<lparr>url := redirected_url result\<rparr> in
      if \<not> fail result \<and> status_code_is_success result \<and> data result \<noteq> [] then
        (let s1 = acquire_headers s0 result in
         if \<not> error s1 then
           (let s2 = s1\<lparr>len := word_of_nat (length (data result))\<rparr>;
                s3 = s2\<lparr>block_num := (len s2 + BLOCK_SIZE cfg - 1) div BLOCK_SIZE cfg\<rparr>
            in case store_whole_data cfg (data result) 0 s3 of
                 None \<Rightarrow> None
               | Some s4 \<Rightarrow> Some (s4\<lparr>ready := True\<rparr>))
         else Some s1)
      else
        (let s1 = s0\<lparr>error := True\<rparr> in
         if status_code result = HTTP_STATUS_CODE_NO_CONTENT
            \<or> status_code result = HTTP_STATUS_CODE_NOT_FOUND
         then Some (s1\<lparr>livestream_eof := True\<rparr>)
         else if status_code result = HTTP_STATUS_CODE_FORBIDDEN
         then Some (s1\<lparr>livestream_private := True\<rparr>)
         else Some s1))"

text \<open>Line 237: the first block from the read head on that is not cached.\<close>

function next_block_reading :: "NetworkStream \<Rightarrow> u64 \<Rightarrow> u64" where
  "next_block_reading s b =
     (if b < block_num s \<and> map_count (downloaded_data s) b
      then next_block_reading s (b + 1) else b)"
  by pat_completeness auto
termination
  by (relation "measure (\<lambda>(s, b). unat (block_num s) - unat b)")
    (auto simp: unat_plus_one_less word_less_nat_alt)

declare next_block_reading.simps [simp del]

text \<open>
  Lines 235 to 243: the block a ranged fetch asks for, or nothing when the search runs
  into the end of the stream ("something unexpected happened").
\<close>

definition choose_block_reading :: "config \<Rightarrow> NetworkStream \<Rightarrow> u64 \<Rightarrow> u64 option" where
  "choose_block_reading cfg cur_stream rh =
     (let block_reading = rh div BLOCK_SIZE cfg in
      if ready cur_stream then
        (let b = next_block_reading cur_stream block_reading in
         if b = block_num cur_stream then None else Some b)
      else Some block_reading)"

text \<open>Lines 246 to 252: the byte range of the request and its \<open>Range\<close> header.\<close>

definition range_start :: "config \<Rightarrow> u64 \<Rightarrow> u64" where
  "range_start cfg block_reading = block_reading * BLOCK_SIZE cfg"

definition range_end :: "config \<Rightarrow> NetworkStream \<Rightarrow> u64 \<Rightarrow> u64" where
  "range_end cfg cur_stream block_reading =
     (if ready cur_stream then min ((block_reading + 1) * BLOCK_SIZE cfg) (len cur_stream)
      else (block_reading + 1) * BLOCK_SIZE cfg)"

definition range_header :: "config \<Rightarrow> NetworkStream \<Rightarrow> u64 \<Rightarrow> (string \<times> string) list" where
  "range_header cfg cur_stream block_reading =
     [(''Range'', ''bytes='' @ to_string (unat (range_start cfg block_reading)) @ ''-''
        @ to_string (unat (range_end cfg cur_stream block_reading - 1)))]"

text \<open>Lines 253 to 282, from the result of the request on.\<close>

definition parse_content_range :: "config \<Rightarrow> NetworkStream \<Rightarrow> HttpResult \<Rightarrow> NetworkStream" where
  "parse_content_range cfg s result =
     (case strchr (get_header result ''Content-Range'') CHR ''/'' of
        None \<Rightarrow> s\<lparr>error := True\<rparr>
      | Some slash \<Rightarrow>
          (let s1 = s\<lparr>len := word_of_int (fst (strtoll (tl slash)))\<rparr> in
           if snd (strtoll (tl slash)) = []
           then s1\<lparr>block_num := (len s1 + BLOCK_SIZE cfg - 1) div BLOCK_SIZE cfg\<rparr>
           else s1\<lparr>error := True\<rparr>))"

definition ranged_download_result ::
  "config \<Rightarrow> NetworkStream \<Rightarrow> u64 \<Rightarrow> HttpResult \<Rightarrow> NetworkStream" where
  "ranged_download_result cfg cur_stream block_reading result =
     (let expected_len = range_end cfg cur_stream block_reading - range_start cfg block_reading;
          s0 = cur_stream\<lparr>url := redirected_url result\<rparr>
      in if \<not> fail result then
           (let s1 = (if \<not> ready s0 then parse_content_range cfg s0 result else s0) in
            if ready s1 \<and> length (data result) \<noteq> unat expected_len
            then s1\<lparr>error := True\<rparr>
            else (set_data cfg s1 block_reading (data result))\<lparr>ready := True\<rparr>)
         else s0\<lparr>error := True\<rparr>)"

text \<open>
  The body of the thread's loop. The slot the search returns always holds a stream, so
  the first \<open>None\<close> below is never taken; the second stands for a whole download whose
  loop over the body does not end.
\<close>

definition downloader_tick ::
  "config \<Rightarrow> http_get \<Rightarrow> NetworkStreamDownloader \<Rightarrow> NetworkStreamDownloader option" where
  "downloader_tick cfg http d =
     (let read_heads = backup_read_heads (streams d);
          (ss, cur_stream_index) =
             find_next_stream cfg read_heads 0 (streams d) (Finite 1000) None
      in case cur_stream_index of
           None \<Rightarrow> Some (d\<lparr>streams := ss\<rparr>)
         | Some i \<Rightarrow>
             (case ss ! i of
                None \<Rightarrow> None
              | Some cur_stream \<Rightarrow>
                  if whole_download cur_stream then
                    (case whole_download_result cfg cur_stream (http (url cur_stream) []) of
                       None \<Rightarrow> None
                     | Some s \<Rightarrow> Some (d\<lparr>streams := ss[i := Some s]\<rparr>))
                  else
                    (case choose_block_reading cfg cur_stream (read_heads ! i) of
                       None \<Rightarrow> Some (d\<lparr>streams := ss[i := Some (cur_stream\<lparr>error := True\<rparr>)]\<rparr>)
                     | Some block_reading \<Rightarrow>
                         Some (d\<lparr>streams := ss[i := Some
                           (ranged_download_result cfg cur_stream block_reading
                              (http (url cur_stream)
                                 (range_header cfg cur_stream block_reading)))]\<rparr>))))"

section \<open>The scheduler's view of a slot\<close>


definition next_needed :: "config \<Rightarrow> NetworkStream \<Rightarrow> u64" where
  "next_needed cfg s =
     first_not_downloaded_block cfg s (read_head s div BLOCK_SIZE cfg) (read_head s div BLOCK_SIZE cfg)"

definition needs_fetch :: "config \<Rightarrow> NetworkStream \<Rightarrow> bool" where
  "needs_fetch cfg s =
     (next_needed cfg s \<noteq> block_num s
      \<and> next_needed cfg s \<noteq> read_head s div BLOCK_SIZE cfg + MAX_FORWARD_READ_BLOCKS cfg)"






definition selectable :: "config \<Rightarrow> u64 \<Rightarrow> NetworkStream \<Rightarrow> bool" where
  "selectable cfg rh s =
     (\<not> quit_request s \<and> \<not> error s \<and> \<not> suspend_request s
      \<and> (\<not> ready s
          \<or> (\<not> whole_download s
              \<and> first_not_downloaded_block cfg s (rh div BLOCK_SIZE cfg) (rh div BLOCK_SIZE cfg)
                   \<noteq> block_num s
              \<and> first_not_downloaded_block cfg s (rh div BLOCK_SIZE cfg) (rh div BLOCK_SIZE cfg)
                   \<noteq> rh div BLOCK_SIZE cfg + MAX_FORWARD_READ_BLOCKS cfg)))"

section \<open>Runs of the downloader\<close>

text \<open>
  The states the downloader can reach, for the properties that speak of every reachable
  state. A run starts with empty caches. A step is a tick of the downloader, with any
  fetcher, or a step of the environment: the reader thread and the owner of the streams
  may change streams and add streams to free or new slots, but they never write a cache
  or the \<open>whole_download\<close> flag of a stream.

  Next to the state, a run keeps a log that is not part of the program: for every block
  that a tick adds to the cache of the stream in a slot, the block of the read head the
  tick started with.
\<close>

type_synonym issue_log = "nat \<times> u64 \<Rightarrow> u64 option"

definition slot :: "NetworkStreamDownloader \<Rightarrow> nat \<Rightarrow> NetworkStream option" where
  "slot d i = (if i < length (streams d) then streams d ! i else None)"

definition note_fetches ::
  "config \<Rightarrow> NetworkStreamDownloader \<Rightarrow> NetworkStreamDownloader \<Rightarrow> issue_log \<Rightarrow> issue_log" where
  "note_fetches cfg d d' g =
     (\<lambda>(i, k). case (slot d i, slot d' i) of
        (Some s, Some s') \<Rightarrow>
          if k \<in> set (map_keys (downloaded_data s')) \<and> k \<notin> set (map_keys (downloaded_data s))
          then Some (read_head s div BLOCK_SIZE cfg) else g (i, k)
      | _ \<Rightarrow> g (i, k))"

definition env_step :: "NetworkStreamDownloader \<Rightarrow> NetworkStreamDownloader \<Rightarrow> bool" where
  "env_step d d' =
     (\<forall>i s'. slot d' i = Some s' \<longrightarrow>
        (case slot d i of
           Some s \<Rightarrow> whole_download s' = whole_download s
                      \<and> downloaded_data s' = downloaded_data s
         | None \<Rightarrow> downloaded_data s' = []))"

inductive reachable :: "config \<Rightarrow> NetworkStreamDownloader \<times> issue_log \<Rightarrow> bool" for cfg where
  start: "(\<forall>i s. slot d i = Some s \<longrightarrow> downloaded_data s = []) \<Longrightarrow> reachable cfg (d, \<lambda>x. None)"
| tick: "reachable cfg (d, g) \<Longrightarrow> downloader_tick cfg http d = Some d' \<Longrightarrow>
         reachable cfg (d', note_fetches cfg d d' g)"
| env: "reachable cfg (d, g) \<Longrightarrow> env_step d d' \<Longrightarrow> reachable cfg (d', g)"

section \<open>Sequences of insertions, and examples\<close>

text \<open>
  A sequence of insertions. The reader thread may move the read head between two of
  them, so every insertion comes with the read head it meets.
\<close>

fun inserts :: "config \<Rightarrow> NetworkStream \<Rightarrow> (u64 \<times> u64 \<times> u8 list) list \<Rightarrow> NetworkStream" where
  "inserts cfg s [] = s"
| "inserts cfg s ((rh, block, dat) # ops) =
     inserts cfg (set_data cfg (s\<lparr>read_head := rh\<rparr>) block dat) ops"

text \<open>
  What the specification calls a block of correct length: its index lies before the end
  of the stream, and it holds \<open>BLOCK_SIZE\<close> bytes, or what is left of the stream when
  that is less.
\<close>

definition block_ok :: "config \<Rightarrow> u64 \<Rightarrow> u64 \<Rightarrow> u8 list \<Rightarrow> bool" where
  "block_ok cfg l k v =
     (unat k * unat (BLOCK_SIZE cfg) < unat l
      \<and> length v = min (unat (BLOCK_SIZE cfg)) (unat l - unat k * unat (BLOCK_SIZE cfg)))"

text \<open>
  Byte \<open>i\<close> of the stream as the cache holds it, the data of the last insertion at
  an index, and the number of bytes the cached blocks hold.
\<close>

definition cache_byte :: "config \<Rightarrow> block_map \<Rightarrow> nat \<Rightarrow> u8" where
  "cache_byte cfg m i =
     the (map_of m (word_of_nat (i div unat (BLOCK_SIZE cfg)))) ! (i mod unat (BLOCK_SIZE cfg))"

fun last_insert :: "(u64 \<times> u64 \<times> u8 list) list \<Rightarrow> u64 \<Rightarrow> u8 list option" where
  "last_insert [] k = None"
| "last_insert ((rh, block, dat) # ops) k =
     (case last_insert ops k of
        Some d \<Rightarrow> Some d
      | None \<Rightarrow> if block = k then Some dat else None)"

definition cached_bytes :: "NetworkStream \<Rightarrow> nat" where
  "cached_bytes s = sum_list (map (\<lambda>p. length (snd p)) (downloaded_data s))"

text \<open>A small configuration and a stream whose cache is full, for the examples.\<close>

definition demo_config :: config where
  "demo_config = \<lparr>BLOCK_SIZE = 4, MAX_CACHE_BLOCKS = 2, MAX_FORWARD_READ_BLOCKS = 3\<rparr>"

definition demo_stream :: NetworkStream where
  "demo_stream = \<lparr>url = ''u'', whole_download = False, read_head = 0, len = 40,
     block_num = 10, ready = True, error = False, quit_request = False,
     suspend_request = False, livestream_eof = False, livestream_private = False,
     seq_head = 0, seq_id = 0, network_waiting_status = None,
     downloaded_data = [(5, [1, 2, 3, 4]), (6, [5, 6, 7, 8])]\<rparr>"


definition demo_empty :: NetworkStream where
  "demo_empty = demo_stream\<lparr>downloaded_data := []\<rparr>"

definition demo_ops :: "(u64 \<times> u64 \<times> u8 list) list" where
  "demo_ops = [(0, 0, [1, 2, 3, 4]), (0, 1, [5, 6, 7, 8])]"

definition demo_live :: NetworkStream where
  "demo_live = \<lparr>url = ''u'', whole_download = True, read_head = 0, len = 0,
     block_num = 0, ready = False, error = False, quit_request = False,
     suspend_request = False, livestream_eof = False, livestream_private = False,
     seq_head = 0, seq_id = 0, network_waiting_status = None,
     downloaded_data = []\<rparr>"

definition demo_empty_ok :: HttpResult where
  "demo_empty_ok = \<lparr>fail = False, status_code = 200, data = [], error_text = '''',
     redirected_url = ''v'', get_header = (\<lambda>name. '''')\<rparr>"

definition demo_not_found :: HttpResult where
  "demo_not_found = \<lparr>fail = True, status_code = 404, data = [], error_text = ''not found'',
     redirected_url = ''v'', get_header = (\<lambda>name. '''')\<rparr>"

text \<open>A stream whose length is the largest 64-bit number.\<close>

definition huge_stream :: NetworkStream where
  "huge_stream = demo_stream\<lparr>len := 18446744073709551615, block_num := 0, downloaded_data := []\<rparr>"

text \<open>
  The first end-to-end scenario of the specification: a stream of 200000 bytes in blocks
  of 65536 bytes, the last block holding 3392 bytes.
\<close>

definition scenario_config :: config where
  "scenario_config = \<lparr>BLOCK_SIZE = 65536, MAX_CACHE_BLOCKS = 32, MAX_FORWARD_READ_BLOCKS = 4\<rparr>"

definition scenario_stream :: "block_map \<Rightarrow> NetworkStream" where
  "scenario_stream m = \<lparr>url = ''u'', whole_download = False, read_head = 200000, len = 200000,
     block_num = 4, ready = True, error = False, quit_request = False,
     suspend_request = False, livestream_eof = False, livestream_private = False,
     seq_head = 0, seq_id = 0, network_waiting_status = None,
     downloaded_data = m\<rparr>"

definition scenario_blocks :: block_map where
  "scenario_blocks = [(0, replicate 65536 0), (1, replicate 65536 0), (2, replicate 65536 0),
     (3, replicate 3392 0)]"


definition demo_http_ok :: http_get where
  "demo_http_ok u hs = \<lparr>fail = False, status_code = 206, data = [9, 9, 9, 9], error_text = '''',
     redirected_url = u, get_header = (\<lambda>name. '''')\<rparr>"

definition demo_downloader :: NetworkStreamDownloader where
  "demo_downloader = \<lparr>streams = [None, Some demo_stream], thread_exit_reqeusted = False\<rparr>"

definition demo_downloader_empty :: NetworkStreamDownloader where
  "demo_downloader_empty = \<lparr>streams = [None, Some demo_empty], thread_exit_reqeusted = False\<rparr>"

section \<open>Properties of the ordered map\<close>

lemma map_keys_simps [simp]:
  "map_keys [] = []" "map_keys ((k, v) # m) = k # map_keys m"
  by (simp_all add: map_keys_def)

lemma map_ok_simps [simp]:
  "map_ok []" "map_ok ((k, v) # m) \<longleftrightarrow> (\<forall>x\<in>set (map_keys m). k < x) \<and> map_ok m"
  by (auto simp: map_ok_def)

lemma map_keys_assign: "set (map_keys (map_assign k v m)) = insert k (set (map_keys m))"
proof (induction m)
  case Nil
  show ?case by simp
next
  case (Cons p m)
  obtain k' v' where p: "p = (k', v')" by (cases p)
  show ?case using Cons.IH by (auto simp: p)
qed

lemma map_ok_assign: "map_ok m \<Longrightarrow> map_ok (map_assign k v m)"
proof (induction m)
  case Nil
  show ?case by simp
next
  case (Cons p m)
  obtain k' v' where p: "p = (k', v')" by (cases p)
  from Cons.prems have ok: "map_ok m" and lt: "\<forall>x\<in>set (map_keys m). k' < x"
    by (auto simp: p)
  consider "k < k'" | "k = k'" | "k' < k" by (meson linorder_less_linear)
  then show ?case
  proof cases
    case 1
    then have "\<forall>x\<in>set (map_keys m). k < x" using lt by (meson less_trans)
    with 1 ok lt show ?thesis by (simp add: p)
  next
    case 2
    with ok lt show ?thesis by (simp add: p)
  next
    case 3
    then have "\<not> k < k'" "k \<noteq> k'" by auto
    with 3 Cons.IH [OF ok] lt show ?thesis by (simp add: p map_keys_assign)
  qed
qed

lemma length_map_assign:
  "map_ok m \<Longrightarrow> length (map_assign k v m) = (if k \<in> set (map_keys m) then length m else Suc (length m))"
proof (induction m)
  case Nil
  show ?case by simp
next
  case (Cons p m)
  obtain k' v' where p: "p = (k', v')" by (cases p)
  from Cons.prems have ok: "map_ok m" and lt: "\<forall>x\<in>set (map_keys m). k' < x"
    by (auto simp: p)
  have "k < k' \<Longrightarrow> k \<notin> set (map_keys m)" using lt by (meson less_asym)
  then show ?case using Cons.IH [OF ok] by (auto simp: p)
qed

lemma map_of_assign: "map_of (map_assign k v m) = (map_of m)(k \<mapsto> v)"
  by (induction m) auto

lemma map_count_keys: "map_count m k \<longleftrightarrow> k \<in> set (map_keys m)"
  by (simp add: map_count_def map_keys_def map_of_eq_None_iff)

lemma map_ok_hd_Min: "map_ok m \<Longrightarrow> m \<noteq> [] \<Longrightarrow> fst (hd m) = Min (set (map_keys m))"
proof (induction m)
  case Nil
  then show ?case by simp
next
  case (Cons p m)
  obtain k' v' where p: "p = (k', v')" by (cases p)
  from Cons.prems have lt: "\<forall>x\<in>set (map_keys m). k' < x"
    by (simp add: p)
  have "Min (insert k' (set (map_keys m))) = k'"
    by (rule Min_eqI) (use lt in \<open>auto simp: less_imp_le\<close>)
  then show ?case by (simp add: p)
qed

lemma map_ok_last_Max: "map_ok m \<Longrightarrow> m \<noteq> [] \<Longrightarrow> fst (last m) = Max (set (map_keys m))"
proof (induction m)
  case Nil
  then show ?case by simp
next
  case (Cons p m)
  obtain k' v' where p: "p = (k', v')" by (cases p)
  from Cons.prems have ok: "map_ok m" and lt: "\<forall>x\<in>set (map_keys m). k' < x"
    by (auto simp: p)
  show ?case
  proof (cases "m = []")
    case True
    then show ?thesis by (simp add: p)
  next
    case False
    then have ne: "set (map_keys m) \<noteq> {}" by (simp add: map_keys_def)
    have IH: "fst (last m) = Max (set (map_keys m))" using Cons.IH ok False by simp
    have "Max (set (map_keys m)) \<in> set (map_keys m)" using ne by simp
    then have "k' < Max (set (map_keys m))" using lt by blast
    then have "Max (insert k' (set (map_keys m))) = Max (set (map_keys m))"
      using ne by (simp add: max_def less_imp_le)
    then show ?thesis using False IH by (simp add: p)
  qed
qed

lemma map_keys_tl: "map_ok m \<Longrightarrow> m \<noteq> [] \<Longrightarrow> set (map_keys (tl m)) = set (map_keys m) - {fst (hd m)}"
  by (cases m) auto

lemma map_keys_butlast: "map_ok m \<Longrightarrow> m \<noteq> [] \<Longrightarrow> set (map_keys (butlast m)) = set (map_keys m) - {fst (last m)}"
proof (induction m)
  case Nil
  then show ?case by simp
next
  case (Cons p m)
  obtain k' v' where p: "p = (k', v')" by (cases p)
  from Cons.prems have ok: "map_ok m" and lt: "\<forall>x\<in>set (map_keys m). k' < x"
    by (auto simp: p)
  show ?case
  proof (cases "m = []")
    case True
    then show ?thesis by (simp add: p)
  next
    case False
    then have "fst (last m) \<in> set (map_keys m)" by (simp add: map_keys_def)
    then have "k' \<noteq> fst (last m)" using lt by auto
    then show ?thesis using Cons.IH [OF ok False] False by (auto simp: p)
  qed
qed

lemma map_ok_tl: "map_ok m \<Longrightarrow> map_ok (tl m)"
  by (cases m) auto

lemma map_ok_butlast: "map_ok m \<Longrightarrow> map_ok (butlast m)"
proof (induction m)
  case Nil
  then show ?case by simp
next
  case (Cons p m)
  obtain k' v' where p: "p = (k', v')" by (cases p)
  show ?case
  proof (cases "m = []")
    case True
    then show ?thesis by simp
  next
    case False
    have "set (map_keys (butlast m)) \<subseteq> set (map_keys m)"
      by (auto simp: map_keys_def dest: in_set_butlastD)
    then show ?thesis using Cons False by (auto simp: p)
  qed
qed

section \<open>Properties of \<open>set_data\<close>\<close>

lemma set_data_keys:
  assumes ok: "map_ok (downloaded_data s)"
  shows "set (map_keys (downloaded_data (set_data cfg s b d))) =
     (let S' = insert b (set (map_keys (downloaded_data s))) in
      if length (map_assign b d (downloaded_data s)) > MAX_CACHE_BLOCKS cfg
      then S' - {if Min S' < read_head s div BLOCK_SIZE cfg then Min S' else Max S'}
      else S')"
proof -
  let ?m = "map_assign b d (downloaded_data s)"
  have okm: "map_ok ?m" using ok by (rule map_ok_assign)
  have ne: "?m \<noteq> []" by (cases "downloaded_data s") (auto split: if_splits)
  have ks: "set (map_keys ?m) = insert b (set (map_keys (downloaded_data s)))"
    by (rule map_keys_assign)
  show ?thesis
    using map_ok_hd_Min [OF okm ne] map_ok_last_Max [OF okm ne]
      map_keys_tl [OF okm ne] map_keys_butlast [OF okm ne]
    by (simp add: set_data_def Let_def ks)
qed

lemma set_data_length:
  assumes ok: "map_ok (downloaded_data s)"
  shows "length (downloaded_data (set_data cfg s b d)) =
     (let n = (if b \<in> set (map_keys (downloaded_data s)) then length (downloaded_data s)
               else Suc (length (downloaded_data s)))
      in if n > MAX_CACHE_BLOCKS cfg then n - 1 else n)"
  by (simp add: set_data_def Let_def length_map_assign [OF ok])

lemma set_data_map_ok:
  "map_ok (downloaded_data s) \<Longrightarrow> map_ok (downloaded_data (set_data cfg s b d))"
  by (simp add: set_data_def Let_def map_ok_assign map_ok_tl map_ok_butlast)

lemma inserts_bounded:
  "map_ok (downloaded_data s) \<Longrightarrow> length (downloaded_data s) \<le> MAX_CACHE_BLOCKS cfg \<Longrightarrow>
   map_ok (downloaded_data (inserts cfg s ops)) \<and>
   length (downloaded_data (inserts cfg s ops)) \<le> MAX_CACHE_BLOCKS cfg"
proof (induction ops arbitrary: s)
  case Nil
  then show ?case by simp
next
  case (Cons op ops)
  obtain rh b d where op: "op = (rh, b, d)" by (cases op)
  let ?s = "set_data cfg (s\<lparr>read_head := rh\<rparr>) b d"
  have ok: "map_ok (downloaded_data ?s)"
    using Cons.prems(1) by (simp add: set_data_map_ok)
  have "length (downloaded_data ?s) \<le> MAX_CACHE_BLOCKS cfg"
    using Cons.prems by (simp add: set_data_length Let_def)
  with ok show ?case using Cons.IH [of ?s] by (simp add: op)
qed


lemma map_of_tl: "map_ok m \<Longrightarrow> m \<noteq> [] \<Longrightarrow> map_of (tl m) = (map_of m)(fst (hd m) := None)"
proof (cases m)
  case Nil
  assume "m \<noteq> []" with Nil show ?thesis by simp
next
  case (Cons p m')
  assume ok: "map_ok m"
  obtain k v where p: "p = (k, v)" by (cases p)
  from ok have "k \<notin> set (map_keys m')" by (auto simp: Cons p)
  then have "map_of m' k = None" by (simp add: map_keys_def map_of_eq_None_iff)
  then show ?thesis by (auto simp: Cons p)
qed

lemma map_of_butlast: "map_ok m \<Longrightarrow> m \<noteq> [] \<Longrightarrow> map_of (butlast m) = (map_of m)(fst (last m) := None)"
proof (induction m)
  case Nil
  then show ?case by simp
next
  case (Cons p m)
  obtain k v where p: "p = (k, v)" by (cases p)
  from Cons.prems have ok: "map_ok m" and lt: "\<forall>x\<in>set (map_keys m). k < x"
    by (auto simp: p)
  show ?case
  proof (cases "m = []")
    case True
    then show ?thesis by (auto simp: p)
  next
    case False
    then have "fst (last m) \<in> set (map_keys m)" by (simp add: map_keys_def)
    then have "k \<noteq> fst (last m)" using lt by auto
    then show ?thesis using Cons.IH [OF ok False] False by (auto simp: p)
  qed
qed

lemma set_data_map_of:
  assumes ok: "map_ok (downloaded_data s)"
  shows "map_of (downloaded_data (set_data cfg s b d)) =
     (let m' = (map_of (downloaded_data s))(b \<mapsto> d);
          S' = insert b (set (map_keys (downloaded_data s))) in
      if length (map_assign b d (downloaded_data s)) > MAX_CACHE_BLOCKS cfg
      then m'((if Min S' < read_head s div BLOCK_SIZE cfg then Min S' else Max S') := None)
      else m')"
proof -
  let ?m = "map_assign b d (downloaded_data s)"
  have okm: "map_ok ?m" using ok by (rule map_ok_assign)
  have ne: "?m \<noteq> []" by (cases "downloaded_data s") (auto split: if_splits)
  have ks: "set (map_keys ?m) = insert b (set (map_keys (downloaded_data s)))"
    by (rule map_keys_assign)
  show ?thesis
    using map_ok_hd_Min [OF okm ne] map_ok_last_Max [OF okm ne]
      map_of_tl [OF okm ne] map_of_butlast [OF okm ne]
    by (simp add: set_data_def Let_def ks map_of_assign)
qed

text \<open>
  C1 (amended). When the cache holds exactly \<open>MAX_CACHE_BLOCKS\<close> blocks and a block
  \<open>b\<close> that is not cached is inserted, exactly one block is evicted, and it is chosen
  among the old blocks and \<open>b\<close> together: the smallest index of \<open>S \<union> {b}\<close> when that
  index is below \<open>read_head / BLOCK_SIZE\<close>, the largest index of \<open>S \<union> {b}\<close>
  otherwise. All other blocks keep their data, and the cache stays at its capacity.
\<close>

theorem set_data_eviction:
  assumes "map_ok (downloaded_data s)"
    and "length (downloaded_data s) = MAX_CACHE_BLOCKS cfg"
    and "b \<notin> set (map_keys (downloaded_data s))"
  shows "(let S' = insert b (set (map_keys (downloaded_data s)));
              evicted = (if Min S' < read_head s div BLOCK_SIZE cfg then Min S' else Max S')
          in set (map_keys (downloaded_data (set_data cfg s b d))) = S' - {evicted}
             \<and> map_of (downloaded_data (set_data cfg s b d))
                 = ((map_of (downloaded_data s))(b \<mapsto> d))(evicted := None)
             \<and> length (downloaded_data (set_data cfg s b d)) = MAX_CACHE_BLOCKS cfg)"
proof -
  have len: "length (map_assign b d (downloaded_data s)) > MAX_CACHE_BLOCKS cfg"
    using assms by (simp add: length_map_assign)
  show ?thesis
    using set_data_keys [OF assms(1), of cfg b d] set_data_map_of [OF assms(1), of cfg b d]
      set_data_length [OF assms(1), of cfg b d] len assms(2,3)
    by (simp add: Let_def)
qed

theorem set_data_eviction_witness:
  "set (map_keys (downloaded_data (set_data demo_config demo_stream 7 [9, 9, 9, 9]))) = {5, 6}
   \<and> map_of (downloaded_data (set_data demo_config demo_stream 7 [9, 9, 9, 9])) 7 = None
   \<and> length (downloaded_data (set_data demo_config demo_stream 7 [9, 9, 9, 9])) = 2"
  using set_data_eviction [of demo_stream demo_config 7 "[9, 9, 9, 9]"]
  by (simp add: demo_stream_def demo_config_def Let_def)

text \<open>
  C1 as stated fails: with the blocks 5 and 6 cached, a capacity of 2 and the read head
  in block 0, the insertion of block 7 evicts block 7 itself, not block 6.
\<close>

theorem set_data_evicts_the_new_block:
  "map_keys (downloaded_data demo_stream) = [5, 6]
   \<and> length (downloaded_data demo_stream) = MAX_CACHE_BLOCKS demo_config
   \<and> read_head demo_stream div BLOCK_SIZE demo_config = 0
   \<and> map_keys (downloaded_data (set_data demo_config demo_stream 7 [9, 9, 9, 9])) = [5, 6]"
  by (simp add: demo_stream_def demo_config_def set_data_def)

text \<open>
  C5. From a cache of at most \<open>MAX_CACHE_BLOCKS\<close> blocks, every sequence of insertions
  leaves at most \<open>MAX_CACHE_BLOCKS\<close> blocks. One insertion overwrites a cached block,
  or adds a block while there is room, or, at capacity, adds a block and evicts exactly
  one, so that the count stays at the bound.
\<close>

theorem residency_bounded:
  assumes "map_ok (downloaded_data s)"
    and "length (downloaded_data s) \<le> MAX_CACHE_BLOCKS cfg"
  shows "length (downloaded_data (inserts cfg s ops)) \<le> MAX_CACHE_BLOCKS cfg
     \<and> length (downloaded_data (set_data cfg s b d)) =
         (if b \<in> set (map_keys (downloaded_data s)) then length (downloaded_data s)
          else if length (downloaded_data s) = MAX_CACHE_BLOCKS cfg then MAX_CACHE_BLOCKS cfg
          else length (downloaded_data s) + 1)"
  using inserts_bounded [OF assms, of ops] set_data_length [OF assms(1), of cfg b d] assms(2)
  by (auto simp: Let_def)

theorem residency_bounded_witness:
  "length (downloaded_data (inserts demo_config demo_stream
      [(0, 7, [9, 9, 9, 9]), (28, 1, [1, 1, 1, 1]), (28, 8, [2, 2, 2, 2])])) \<le> 2
   \<and> length (downloaded_data (set_data demo_config demo_stream 7 [9, 9, 9, 9])) = 2"
  using residency_bounded [of demo_stream demo_config
      "[(0, 7, [9, 9, 9, 9]), (28, 1, [1, 1, 1, 1]), (28, 8, [2, 2, 2, 2])]" 7 "[9, 9, 9, 9]"]
  by (simp add: demo_stream_def demo_config_def)

section \<open>Words without wrap-around, ranges and slices\<close>

lemma unat_mult_nowrap: "unat a * unat b < 2 ^ 64 \<Longrightarrow> unat (a * b) = unat a * unat (b :: u64)"
  using unat_mult_lem [of a b] by simp

lemma unat_add_nowrap: "unat a + unat b < 2 ^ 64 \<Longrightarrow> unat (a + b) = unat a + unat (b :: u64)"
  using unat_add_lem [of a b] by simp

lemma unat_max: "unat (max a b) = max (unat a) (unat (b :: u64))"
  by (simp add: max_def word_le_nat_alt)

lemma unat_min: "unat (min a b) = min (unat a) (unat (b :: u64))"
  by (simp add: min_def word_le_nat_alt)

lemma slice_eq_map: "l \<le> r \<Longrightarrow> r \<le> length v \<Longrightarrow> slice v l r = map (\<lambda>j. v ! j) [l ..< r]"
  by (rule nth_equalityI) (auto simp: slice_def)

lemma map_upt_shift:
  "c \<le> lo \<Longrightarrow> map (\<lambda>j. f j) [lo - c ..< hi - c] = map (\<lambda>i. f (i - c)) [lo ..< hi]"
  by (rule nth_equalityI) auto

lemma upt_split: "a \<le> b \<Longrightarrow> b \<le> c \<Longrightarrow> [a ..< b] @ [b ..< c] = [a ..< (c :: nat)]"
  by (metis le_Suc_ex upt_add_eq_append)

lemma in_block_div:
  fixes i :: nat
  assumes "B * bs \<le> i" "i < (B + 1) * bs"
  shows "i div bs = B" and "i mod bs = i - B * bs"
proof -
  show d: "i div bs = B"
    by (rule div_nat_eqI) (use assms in \<open>simp_all add: mult.commute\<close>)
  have "i = i div bs * bs + i mod bs" by simp
  then show "i mod bs = i - B * bs" using d by (metis add_diff_cancel_left')
qed

lemma before_next_block:
  fixes st :: nat
  assumes "0 < bs" "st div bs \<le> B"
  shows "st < (B + 1) * bs"
proof -
  have "st < (st div bs + 1) * bs" using assms(1) dividend_less_div_times [of bs st]
    by (simp add: add.commute)
  also have "\<dots> \<le> (B + 1) * bs" using assms(2) by (simp add: mult_le_mono1)
  finally show ?thesis .
qed

section \<open>Properties of \<open>is_data_available\<close>\<close>

lemma is_data_available_loop_present:
  "is_data_available_loop m b e = Some True \<Longrightarrow> b \<le> k \<Longrightarrow> k \<le> e \<Longrightarrow> map_count m k"
proof (induction n \<equiv> "unat k - unat b" arbitrary: b)
  case 0
  then have "unat k \<le> unat b" by simp
  with 0 have kb: "k = b" by (simp add: word_le_nat_alt word_unat_eq_iff)
  from 0 have "b \<le> e" by simp
  with 0(2) show ?case
    by (subst (asm) is_data_available_loop.simps) (auto simp: kb split: if_splits)
next
  case (Suc n)
  then have lt: "b < k" by (simp add: word_less_nat_alt)
  then have be: "b \<le> e" using Suc.prems by simp
  have u: "unat (b + 1) = Suc (unat b)" using lt by (rule unat_plus_one_less)
  from Suc.prems(1) be have nxt: "is_data_available_loop m (b + 1) e = Some True"
    by (subst (asm) is_data_available_loop.simps) (auto split: if_splits)
  have "b + 1 \<le> k" using lt u by (simp add: word_le_nat_alt word_less_nat_alt)
  moreover have "n = unat k - unat (b + 1)" using Suc.hyps(2) u by simp
  ultimately show ?case using Suc.hyps(1) nxt Suc.prems(3) by blast
qed

lemma available_present:
  assumes bs: "BLOCK_SIZE cfg \<noteq> 0"
    and rdy: "ready s"
    and avail: "is_data_available cfg s start size' = Some True"
    and nowrap1: "unat start + unat size' \<le> unat (len s)"
    and i: "unat start \<le> i" "i < unat start + unat size'"
  shows "word_of_nat (i div unat (BLOCK_SIZE cfg)) \<in> set (map_keys (downloaded_data s))"
proof -
  let ?bsw = "BLOCK_SIZE cfg" and ?m = "downloaded_data s"
  let ?bs = "unat ?bsw" and ?st = "unat start" and ?sz = "unat size'" and ?L = "unat (len s)"
  let ?end = "start + size' - 1"
  let ?sb = "start div ?bsw" and ?eb = "?end div ?bsw"
  have sz0: "0 < ?sz" using i by simp
  have L64: "?L < 2 ^ 64" using unsigned_less [of "len s"] by simp
  have u_ss: "unat (start + size') = ?st + ?sz"
    using nowrap1 L64 by (intro unat_add_nowrap) simp
  have one_le: "1 \<le> start + size'" using sz0 u_ss by (simp add: word_le_nat_alt)
  have u_end: "unat ?end = ?st + ?sz - 1" using unat_sub [OF one_le] u_ss by simp
  have u_eb: "unat ?eb = unat ?end div ?bs" by (simp add: unat_div)
  have u_sb: "unat ?sb = ?st div ?bs" by (simp add: unat_div)
  from avail rdy have loop: "is_data_available_loop ?m ?sb ?eb = Some True"
    by (simp add: is_data_available_def Let_def split: if_splits)
  have "i < 2 ^ 64" using i(2) nowrap1 L64 by linarith
  moreover have "i div ?bs \<le> i" by (rule div_le_dividend)
  ultimately have "i div ?bs < 2 ^ 64" by (rule le_less_trans [rotated])
  then have u: "unat (word_of_nat (i div ?bs) :: u64) = i div ?bs" by (simp add: unat_of_nat)
  have "?sb \<le> word_of_nat (i div ?bs)"
    using i(1) by (simp add: word_le_nat_alt u_sb u div_le_mono)
  moreover have "word_of_nat (i div ?bs) \<le> ?eb"
    using i(2) by (simp add: word_le_nat_alt u_eb u u_end div_le_mono)
  ultimately show ?thesis
    using is_data_available_loop_present [OF loop] by (simp add: map_count_keys)
qed

lemma is_data_available_loop_total:
  "unat e < 2 ^ 64 - 1 \<Longrightarrow>
   is_data_available_loop m b e = Some (\<forall>k. b \<le> k \<and> k \<le> e \<longrightarrow> map_count m k)"
proof (induction n \<equiv> "unat e + 1 - unat b" arbitrary: b)
  case 0
  then have nle: "\<not> b \<le> e" by (simp add: word_le_nat_alt)
  then have r: "(\<forall>k. b \<le> k \<and> k \<le> e \<longrightarrow> map_count m k) = True" by auto
  show ?case using nle by (subst is_data_available_loop.simps) (simp add: r)
next
  case (Suc n)
  then have be: "b \<le> e" by (simp add: word_le_nat_alt)
  show ?case
  proof (cases "map_count m b")
    case False
    then have "is_data_available_loop m b e = Some False"
      using be by (subst is_data_available_loop.simps) simp
    moreover have "\<not> (\<forall>k. b \<le> k \<and> k \<le> e \<longrightarrow> map_count m k)" using False be by auto
    ultimately show ?thesis by simp
  next
    case True
    have "unat b < 2 ^ 64 - 1" using be Suc.prems by (simp add: word_le_nat_alt)
    then have u: "unat (b + 1) = unat b + 1" by (simp add: unat_add_nowrap)
    have n: "n = unat e + 1 - unat (b + 1)" using Suc.hyps(2) u by simp
    have st: "is_data_available_loop m b e = is_data_available_loop m (b + 1) e"
      using be True by (subst is_data_available_loop.simps) simp
    have "(\<forall>k. b \<le> k \<and> k \<le> e \<longrightarrow> map_count m k)
        = (\<forall>k. b + 1 \<le> k \<and> k \<le> e \<longrightarrow> map_count m k)"
    proof (intro iffI allI impI)
      fix k assume a: "\<forall>k. b \<le> k \<and> k \<le> e \<longrightarrow> map_count m k" and k: "b + 1 \<le> k \<and> k \<le> e"
      have "b \<le> k" using k u by (simp add: word_le_nat_alt)
      then show "map_count m k" using a k by simp
    next
      fix k assume a: "\<forall>k. b + 1 \<le> k \<and> k \<le> e \<longrightarrow> map_count m k" and k: "b \<le> k \<and> k \<le> e"
      show "map_count m k"
      proof (cases "k = b")
        case True
        then show ?thesis using \<open>map_count m b\<close> by simp
      next
        case False
        then have "b + 1 \<le> k" using k u by (simp add: word_le_nat_alt word_unat_eq_iff)
        then show ?thesis using a k by simp
      qed
    qed
    then show ?thesis using Suc.hyps(1) [OF n Suc.prems] st by simp
  qed
qed

lemma block_intersects_range:
  fixes st sz bs K :: nat
  assumes bs: "0 < bs" and sz: "0 < sz"
  shows "(st div bs \<le> K \<and> K \<le> (st + sz - 1) div bs)
     \<longleftrightarrow> (\<exists>i. st \<le> i \<and> i < st + sz \<and> i div bs = K)"
proof
  assume a: "st div bs \<le> K \<and> K \<le> (st + sz - 1) div bs"
  let ?i = "max st (K * bs)"
  have "K * bs \<le> (st + sz - 1) div bs * bs" using a by (simp add: mult_le_mono1)
  also have "\<dots> \<le> st + sz - 1" by simp
  finally have Kle: "K * bs \<le> st + sz - 1" .
  have i1: "st \<le> ?i" by simp
  have i2: "?i < st + sz" using Kle sz by simp
  have lo: "K * bs \<le> ?i" by simp
  have "st < (K + 1) * bs" using bs a by (intro before_next_block) simp_all
  then have hi: "?i < (K + 1) * bs" using bs by simp
  have "?i div bs = K" using lo hi by (rule in_block_div(1))
  with i1 i2 show "\<exists>i. st \<le> i \<and> i < st + sz \<and> i div bs = K" by blast
next
  assume "\<exists>i. st \<le> i \<and> i < st + sz \<and> i div bs = K"
  then obtain i where i: "st \<le> i" "i < st + sz" "i div bs = K" by blast
  have "st div bs \<le> i div bs" using i(1) by (rule div_le_mono)
  moreover have "i div bs \<le> (st + sz - 1) div bs" using i(2) by (intro div_le_mono) simp
  ultimately show "st div bs \<le> K \<and> K \<le> (st + sz - 1) div bs" using i(3) by simp
qed

text \<open>
  C7 (amended). For a range of at least one byte whose end \<open>start + size\<close> does not
  wrap around, \<open>is_data_available\<close> returns true exactly when the stream is ready,
  \<open>start + size\<close> is at most \<open>len\<close>, and every block that holds a byte of the range is
  cached. In particular it returns false when the stream is not ready and when
  \<open>start + size\<close> exceeds \<open>len\<close>.
\<close>

theorem is_data_available_iff:
  assumes bs: "BLOCK_SIZE cfg \<noteq> 0"
    and sz: "size' \<noteq> 0"
    and nowrap: "unat start + unat size' < 2 ^ 64"
  shows "is_data_available cfg s start size' =
     Some (ready s \<and> unat start + unat size' \<le> unat (len s)
           \<and> (\<forall>k. (\<exists>i. unat start \<le> i \<and> i < unat start + unat size'
                         \<and> i div unat (BLOCK_SIZE cfg) = unat k)
                  \<longrightarrow> k \<in> set (map_keys (downloaded_data s))))"
proof -
  let ?bs = "unat (BLOCK_SIZE cfg)" and ?st = "unat start" and ?sz = "unat size'"
  let ?end = "start + size' - 1"
  let ?sb = "start div BLOCK_SIZE cfg" and ?eb = "?end div BLOCK_SIZE cfg"
  have bs0: "0 < ?bs" using bs by (simp add: unat_gt_0)
  have sz0: "0 < ?sz" using sz by (simp add: unat_gt_0)
  have u_ss: "unat (start + size') = ?st + ?sz" using nowrap by (rule unat_add_nowrap)
  have one_le: "1 \<le> start + size'" using sz0 u_ss by (simp add: word_le_nat_alt)
  have u_end: "unat ?end = ?st + ?sz - 1" using unat_sub [OF one_le] u_ss by simp
  have u_eb: "unat ?eb = (?st + ?sz - 1) div ?bs" by (simp add: unat_div u_end)
  have u_sb: "unat ?sb = ?st div ?bs" by (simp add: unat_div)
  have "unat ?eb \<le> ?st + ?sz - 1" unfolding u_eb by (rule div_le_dividend)
  then have eb_small: "unat ?eb < 2 ^ 64 - 1" using nowrap sz0 by linarith
  have cmp: "(start + size' > len s) = (\<not> ?st + ?sz \<le> unat (len s))"
    by (simp add: word_less_nat_alt u_ss not_le)
  have blocks: "(\<forall>k. ?sb \<le> k \<and> k \<le> ?eb \<longrightarrow> map_count (downloaded_data s) k)
      = (\<forall>k. (\<exists>i. ?st \<le> i \<and> i < ?st + ?sz \<and> i div ?bs = unat k)
                  \<longrightarrow> k \<in> set (map_keys (downloaded_data s)))"
    using block_intersects_range [OF bs0 sz0, of ?st]
    by (simp add: word_le_nat_alt u_sb u_eb map_count_keys)
  show ?thesis
    using is_data_available_loop_total [OF eb_small, of "downloaded_data s" ?sb]
    by (simp add: is_data_available_def Let_def cmp blocks)
qed

theorem is_data_available_iff_witness:
  "is_data_available demo_config demo_stream 20 8 = Some True
   \<and> is_data_available demo_config demo_stream 20 9 = Some False
   \<and> ready demo_stream \<and> unat (20 :: u64) + unat (8 :: u64) \<le> unat (len demo_stream)
   \<and> 5 \<in> set (map_keys (downloaded_data demo_stream))
   \<and> 6 \<in> set (map_keys (downloaded_data demo_stream))"
proof -
  have h1: "BLOCK_SIZE demo_config \<noteq> 0" by (simp add: demo_config_def)
  have h2: "(8 :: u64) \<noteq> 0" by simp
  have h3: "unat (20 :: u64) + unat (8 :: u64) < 2 ^ 64" by simp
  have e: "is_data_available demo_config demo_stream 20 8 = Some True"
    by (simp add: is_data_available_def is_data_available_loop.simps map_count_def Let_def
        demo_stream_def demo_config_def word_le_nat_alt)
  have e2: "is_data_available demo_config demo_stream 20 9 = Some False"
    by (simp add: is_data_available_def is_data_available_loop.simps map_count_def Let_def
        demo_stream_def demo_config_def word_le_nat_alt)
  from is_data_available_iff [OF h1 h2 h3, of demo_stream] e
  have a: "ready demo_stream" "unat (20 :: u64) + unat (8 :: u64) \<le> unat (len demo_stream)"
    and b: "\<forall>k. (\<exists>i. unat (20 :: u64) \<le> i \<and> i < unat (20 :: u64) + unat (8 :: u64)
                         \<and> i div unat (BLOCK_SIZE demo_config) = unat k)
                  \<longrightarrow> k \<in> set (map_keys (downloaded_data demo_stream))"
    by simp_all
  have "\<exists>i. unat (20 :: u64) \<le> i \<and> i < unat (20 :: u64) + unat (8 :: u64)
                         \<and> i div unat (BLOCK_SIZE demo_config) = unat (5 :: u64)"
    by (rule exI [of _ 20]) (simp add: demo_config_def)
  with b have k5: "5 \<in> set (map_keys (downloaded_data demo_stream))" by blast
  have "\<exists>i. unat (20 :: u64) \<le> i \<and> i < unat (20 :: u64) + unat (8 :: u64)
                         \<and> i div unat (BLOCK_SIZE demo_config) = unat (6 :: u64)"
    by (rule exI [of _ 24]) (simp add: demo_config_def)
  with b have k6: "6 \<in> set (map_keys (downloaded_data demo_stream))" by blast
  from e e2 a k5 k6 show ?thesis by simp
qed

text \<open>
  C7 as stated fails for empty ranges, and where \<open>start + size\<close> wraps around. After a
  seek to the end of the stream of the first scenario, with the blocks 0 to 2 cached,
  the range \<open>(200000, 0)\<close> lies within bounds and meets no block, yet
  \<open>is_data_available\<close> computes \<open>end = start + size - 1 = 199999\<close>, looks for block 3 and
  answers false; \<open>get_data\<close> has a guard for \<open>size = 0\<close>, \<open>is_data_available\<close> has
  none. For \<open>start = 0\<close> the subtraction wraps around and the answer is false on an
  empty cache. For \<open>start = 2^64 - 1\<close> and \<open>size = 2\<close> the sum wraps around to 1, and the
  answer is true although the range ends beyond \<open>len\<close>.
\<close>

theorem empty_or_wrapped_range:
  "ready (scenario_stream (butlast scenario_blocks))
   \<and> unat (200000 :: u64) + unat (0 :: u64) \<le> unat (len (scenario_stream (butlast scenario_blocks)))
   \<and> is_data_available scenario_config (scenario_stream (butlast scenario_blocks)) 200000 0
        = Some False
   \<and> is_data_available scenario_config (scenario_stream []) 0 0 = Some False
   \<and> unat (18446744073709551615 :: u64) + unat (2 :: u64) > unat (len (scenario_stream []))
   \<and> is_data_available scenario_config (scenario_stream []) 18446744073709551615 2 = Some True"
  by (simp add: scenario_stream_def scenario_blocks_def scenario_config_def
      is_data_available_def is_data_available_loop.simps map_count_def Let_def word_le_nat_alt)

section \<open>Properties of \<open>get_data\<close>\<close>

lemma map_ok_hd_least:
  "map_ok ((k, v) # itr) \<Longrightarrow> k' \<in> set (map_keys itr) \<Longrightarrow> itr \<noteq> [] \<and> fst (hd itr) \<le> k'"
proof -
  assume ok: "map_ok ((k, v) # itr)" and k': "k' \<in> set (map_keys itr)"
  then have ne: "itr \<noteq> []" by auto
  from ok have "map_ok itr" by simp
  then have "fst (hd itr) = Min (set (map_keys itr))" using ne by (rule map_ok_hd_Min)
  then show ?thesis using k' ne by simp
qed

lemma get_data_loop_done:
  "\<not> block \<le> end_block \<Longrightarrow> get_data_loop bsw start end' end_block block itr res = Inr res"
  by (cases itr) auto

lemma get_data_loop_correct:
  fixes bsw start end' end_block block :: u64
  assumes bs: "0 < unat bsw"
    and nowrap: "(unat end_block + 1) * unat bsw < 2 ^ 64"
    and en1: "unat end' + 1 < 2 ^ 64"
    and eb: "unat end_block = unat end' div unat bsw"
    and st: "unat start \<le> unat end'"
    and ok: "map_ok itr"
    and hd: "block \<le> end_block \<longrightarrow> itr \<noteq> [] \<and> fst (hd itr) = block"
    and pres: "\<forall>k. block \<le> k \<and> k \<le> end_block \<longrightarrow> k \<in> set (map_keys itr)"
    and lens: "\<forall>(k, v) \<in> set itr. k \<le> end_block \<longrightarrow>
         min (unat end' + 1) ((unat k + 1) * unat bsw) - unat k * unat bsw \<le> length v"
    and sb: "unat start div unat bsw \<le> unat block"
    and bnd: "unat block \<le> unat end_block + 1"
  shows "get_data_loop bsw start end' end_block block itr res =
     Inr (res @ map (\<lambda>i. the (map_of itr (word_of_nat (i div unat bsw))) ! (i mod unat bsw))
                  [max (unat start) (unat block * unat bsw) ..< unat end' + 1])"
  using ok hd pres lens sb bnd
proof (induction itr arbitrary: block res)
  case Nil
  then have nle: "\<not> block \<le> end_block" by simp
  then have "unat block = unat end_block + 1" using Nil.prems(6) by (simp add: word_le_nat_alt)
  then have "unat end' < unat block * unat bsw"
    using eb bs dividend_less_div_times [of "unat bsw" "unat end'"] by (simp add: add.commute)
  then show ?case using nle by simp
next
  case (Cons p itr)
  obtain k v where p: "p = (k, v)" by (cases p)
  let ?bs = "unat bsw" and ?B = "unat block" and ?E = "unat end_block"
  let ?st = "unat start" and ?en = "unat end'"
  show ?case
  proof (cases "block \<le> end_block")
    case False
    then have "unat block = unat end_block + 1" using Cons.prems(6) by (simp add: word_le_nat_alt)
    then have "unat end' < unat block * unat bsw"
      using eb bs dividend_less_div_times [of "unat bsw" "unat end'"] by (simp add: add.commute)
    then show ?thesis using False by (simp add: p)
  next
    case True
    then have BE: "?B \<le> ?E" by (simp add: word_le_nat_alt)
    from True Cons.prems(2) have kb: "k = block" by (simp add: p)
    have Bbs: "?B * ?bs \<le> ?en"
    proof -
      have "?B * ?bs \<le> ?E * ?bs" using BE by (simp add: mult_le_mono1)
      also have "\<dots> \<le> ?en" by (simp add: eb)
      finally show ?thesis .
    qed
    have B1bs: "(?B + 1) * ?bs \<le> (?E + 1) * ?bs" using BE by (simp add: mult_le_mono1)
    have B1: "?B + 1 < 2 ^ 64"
    proof -
      have "(?B + 1) * 1 \<le> (?B + 1) * ?bs" using bs by (intro mult_le_mono2) simp
      then have "?B + 1 \<le> (?B + 1) * ?bs" by simp
      then have "?B + 1 \<le> (?E + 1) * ?bs" using B1bs by (rule le_trans)
      then show ?thesis using nowrap by (rule le_less_trans)
    qed
    have u_b1: "unat (block + 1) = ?B + 1" using B1 by (simp add: unat_add_nowrap)
    have u_bbs: "unat (block * bsw) = ?B * ?bs"
      using Bbs en1 by (intro unat_mult_nowrap) linarith
    have u_b1bs: "unat ((block + 1) * bsw) = (?B + 1) * ?bs"
    proof -
      have "(?B + 1) * ?bs < 2 ^ 64" using B1bs nowrap by (rule le_less_trans)
      then have "unat (block + 1) * ?bs < 2 ^ 64" unfolding u_b1 .
      then have "unat ((block + 1) * bsw) = unat (block + 1) * ?bs" by (rule unat_mult_nowrap)
      then show ?thesis unfolding u_b1 .
    qed
    have u_e1: "unat (end' + 1) = ?en + 1" using en1 by (simp add: unat_add_nowrap)
    have st_lt: "?st < (?B + 1) * ?bs" using bs Cons.prems(5) by (rule before_next_block)
    let ?lo = "max ?st (?B * ?bs)" and ?hi = "min (?en + 1) ((?B + 1) * ?bs)"
    have le1: "block * bsw \<le> max start (block * bsw)" by simp
    have le2: "block * bsw \<le> min (end' + 1) ((block + 1) * bsw)"
      using Bbs by (simp add: word_le_nat_alt unat_min u_e1 u_b1bs u_bbs)
    have u_l: "unat (max start (block * bsw) - block * bsw) = ?lo - ?B * ?bs"
      using unat_sub [OF le1] by (simp add: unat_max u_bbs)
    have u_r: "unat (min (end' + 1) ((block + 1) * bsw) - block * bsw) = ?hi - ?B * ?bs"
      using unat_sub [OF le2] by (simp add: unat_min u_e1 u_b1bs u_bbs)
    have st_en: "?st \<le> ?en + 1" using st by simp
    have lohi: "?lo \<le> ?hi" using st_lt Bbs st_en by simp
    have lr: "max start (block * bsw) - block * bsw \<le> min (end' + 1) ((block + 1) * bsw) - block * bsw"
      using lohi by (simp only: word_le_nat_alt u_l u_r)
    have rlen: "?hi - ?B * ?bs \<le> length v"
      using Cons.prems(4) True by (simp add: p kb)
    have step: "get_data_loop bsw start end' end_block block (p # itr) res =
        get_data_loop bsw start end' end_block (block + 1) itr
          (res @ slice v (?lo - ?B * ?bs) (?hi - ?B * ?bs))"
      using True lr rlen by (simp add: p kb Let_def u_l u_r)
    let ?f = "\<lambda>m i. the (map_of m (word_of_nat (i div ?bs) :: u64)) ! (i mod ?bs)"
    have part1: "slice v (?lo - ?B * ?bs) (?hi - ?B * ?bs) = map (?f (p # itr)) [?lo ..< ?hi]"
    proof -
      have "slice v (?lo - ?B * ?bs) (?hi - ?B * ?bs) = map (\<lambda>j. v ! j) [?lo - ?B * ?bs ..< ?hi - ?B * ?bs]"
      proof (rule slice_eq_map)
        show "?lo - ?B * ?bs \<le> ?hi - ?B * ?bs" using lohi by (rule diff_le_mono)
        show "?hi - ?B * ?bs \<le> length v" by (rule rlen)
      qed
      also have "\<dots> = map (\<lambda>i. v ! (i - ?B * ?bs)) [?lo ..< ?hi]"
        by (rule map_upt_shift) simp
      also have "\<dots> = map (?f (p # itr)) [?lo ..< ?hi]"
      proof (rule map_cong [OF refl])
        fix i assume "i \<in> set [?lo ..< ?hi]"
        then have i: "?B * ?bs \<le> i" "i < (?B + 1) * ?bs"
          unfolding set_upt atLeastLessThan_iff by simp_all
        have "word_of_nat (i div ?bs) = block" using in_block_div(1) [OF i] by simp
        then show "v ! (i - ?B * ?bs) = ?f (p # itr) i"
          using in_block_div(2) [OF i] by (simp add: p kb)
      qed
      finally show ?thesis .
    qed
    have ok': "map_ok itr" using Cons.prems(1) by (simp add: p)
    have gt: "\<forall>x\<in>set (map_keys itr). block < x" using Cons.prems(1) by (simp add: p kb)
    have b_lt: "block < block + 1" using u_b1 by (simp add: word_less_nat_alt)
    have hd': "block + 1 \<le> end_block \<longrightarrow> itr \<noteq> [] \<and> fst (hd itr) = block + 1"
    proof
      assume a: "block + 1 \<le> end_block"
      have "block \<le> block + 1" using b_lt by simp
      with a Cons.prems(3) have "block + 1 \<in> set (map_keys (p # itr))" by blast
      then have mem: "block + 1 \<in> set (map_keys itr)" using b_lt by (auto simp: p kb)
      from map_ok_hd_least [OF Cons.prems(1) [unfolded p] mem]
      have ne: "itr \<noteq> []" and le: "fst (hd itr) \<le> block + 1" by simp_all
      from ne have "fst (hd itr) \<in> set (map_keys itr)" by (simp add: map_keys_def)
      then have "block < fst (hd itr)" using gt by blast
      then have "unat (block + 1) \<le> unat (fst (hd itr))" using u_b1 by (simp add: word_less_nat_alt)
      with le have "fst (hd itr) = block + 1" by (simp add: word_le_nat_alt word_unat_eq_iff)
      with ne show "itr \<noteq> [] \<and> fst (hd itr) = block + 1" by simp
    qed
    have pres': "\<forall>k. block + 1 \<le> k \<and> k \<le> end_block \<longrightarrow> k \<in> set (map_keys itr)"
    proof (intro allI impI)
      fix k' assume a: "block + 1 \<le> k' \<and> k' \<le> end_block"
      then have "block + 1 \<le> k'" by simp
      with b_lt have "block < k'" by (rule less_le_trans)
      then have "block \<le> k'" "k' \<noteq> block" by simp_all
      with a Cons.prems(3) show "k' \<in> set (map_keys itr)" by (auto simp: p kb)
    qed
    have lens': "\<forall>(k, v) \<in> set itr. k \<le> end_block \<longrightarrow>
         min (?en + 1) ((unat k + 1) * ?bs) - unat k * ?bs \<le> length v"
      using Cons.prems(4) by simp
    have sb': "?st div ?bs \<le> unat (block + 1)" using Cons.prems(5) u_b1 by simp
    have bnd': "unat (block + 1) \<le> ?E + 1" using BE u_b1 by simp
    note IH = Cons.IH [OF ok' hd' pres' lens' sb' bnd',
        of "res @ slice v (?lo - ?B * ?bs) (?hi - ?B * ?bs)"]
    have part2: "map (?f itr) [max ?st (unat (block + 1) * ?bs) ..< ?en + 1]
        = map (?f (p # itr)) [?hi ..< ?en + 1]"
    proof (cases "(?B + 1) * ?bs \<le> ?en + 1")
      case False
      then show ?thesis by (simp add: u_b1)
    next
      case le: True
      then have hi: "?hi = (?B + 1) * ?bs" by simp
      have lo': "max ?st (unat (block + 1) * ?bs) = (?B + 1) * ?bs" using st_lt u_b1 by simp
      have "map (?f itr) [(?B + 1) * ?bs ..< ?en + 1] = map (?f (p # itr)) [(?B + 1) * ?bs ..< ?en + 1]"
      proof (rule map_cong [OF refl])
        fix i assume "i \<in> set [(?B + 1) * ?bs ..< ?en + 1]"
        then have i: "(?B + 1) * ?bs \<le> i" "i \<le> ?en"
          unfolding set_upt atLeastLessThan_iff by simp_all
        have "?B + 1 \<le> i div ?bs"
          using i(1) bs by (metis div_le_mono div_mult_self_is_m)
        moreover have "i div ?bs \<le> ?E" using i(2) eb by (simp add: div_le_mono)
        moreover have "?E < 2 ^ 64" using unsigned_less [of end_block] by simp
        ultimately have "unat (word_of_nat (i div ?bs) :: u64) \<noteq> ?B"
          by (simp add: unat_of_nat)
        then have "(word_of_nat (i div ?bs) :: u64) \<noteq> k" unfolding kb by auto
        then show "?f itr i = ?f (p # itr) i" by (simp add: p)
      qed
      then show ?thesis by (simp only: hi lo')
    qed
    have "[?lo ..< ?hi] @ [?hi ..< ?en + 1] = [?lo ..< ?en + 1]"
      using lohi by (intro upt_split) simp_all
    then have "map (?f (p # itr)) [?lo ..< ?en + 1]
        = map (?f (p # itr)) [?lo ..< ?hi] @ map (?f (p # itr)) [?hi ..< ?en + 1]"
      by (metis map_append)
    then show ?thesis
      using step IH part1 part2 by simp
  qed
qed

lemma map_find_subset: "set (map_find m k) \<subseteq> set m"
  by (auto simp: map_find_def dest: set_dropWhileD)

lemma map_find_ok: "map_ok m \<Longrightarrow> map_ok (map_find m k)"
proof (induction m)
  case Nil
  then show ?case by (simp add: map_find_def)
next
  case (Cons p m)
  obtain k' v' where p: "p = (k', v')" by (cases p)
  show ?case using Cons by (auto simp: map_find_def p)
qed

lemma map_find_hd: "k \<in> set (map_keys m) \<Longrightarrow> map_find m k \<noteq> [] \<and> fst (hd (map_find m k)) = k"
proof -
  assume "k \<in> set (map_keys m)"
  then have ex: "\<exists>p\<in>set m. \<not> fst p \<noteq> k" by (auto simp: map_keys_def)
  then have ne: "map_find m k \<noteq> []" by (simp add: map_find_def dropWhile_eq_Nil_conv)
  then have "\<not> fst (hd (map_find m k)) \<noteq> k" unfolding map_find_def by (rule hd_dropWhile)
  with ne show ?thesis by simp
qed

lemma map_find_map_of:
  "map_ok m \<Longrightarrow> k \<in> set (map_keys m) \<Longrightarrow> k \<le> k' \<Longrightarrow> map_of (map_find m k) k' = map_of m k'"
proof (induction m)
  case Nil
  then show ?case by (simp add: map_find_def)
next
  case (Cons p m)
  obtain a v where p: "p = (a, v)" by (cases p)
  from Cons.prems have ok: "map_ok m" and lt: "\<forall>x\<in>set (map_keys m). a < x" by (auto simp: p)
  show ?case
  proof (cases "a = k")
    case True
    then show ?thesis by (simp add: map_find_def p)
  next
    case False
    then have mf: "map_find (p # m) k = map_find m k" by (simp add: map_find_def p)
    from False Cons.prems(2) have mem: "k \<in> set (map_keys m)" by (auto simp: p)
    then have "a < k" using lt by blast
    then have "a < k'" using Cons.prems(3) by (rule less_le_trans)
    then have "k' \<noteq> a" by auto
    then show ?thesis using Cons.IH [OF ok mem Cons.prems(3)] mf by (simp add: p)
  qed
qed

lemma get_data_correct:
  assumes bs: "BLOCK_SIZE cfg \<noteq> 0"
    and rdy: "ready s"
    and ok: "map_ok (downloaded_data s)"
    and blocks: "\<forall>(k, v) \<in> set (downloaded_data s). block_ok cfg (len s) k v"
    and avail: "is_data_available cfg s start size' = Some True"
    and nowrap1: "unat start + unat size' \<le> unat (len s)"
    and nowrap2: "unat (len s) + unat (BLOCK_SIZE cfg) \<le> 2 ^ 64"
  shows "get_data cfg s start size' =
     Inr (map (cache_byte cfg (downloaded_data s)) [unat start ..< unat start + unat size'])"
proof (cases "size' = 0")
  case True
  then show ?thesis using rdy by (simp add: get_data_def)
next
  case False
  let ?bsw = "BLOCK_SIZE cfg" and ?m = "downloaded_data s"
  let ?bs = "unat ?bsw" and ?st = "unat start" and ?sz = "unat size'" and ?L = "unat (len s)"
  let ?end = "start + size' - 1"
  let ?sb = "start div ?bsw" and ?eb = "?end div ?bsw"
  have bs0: "0 < ?bs" using bs by (simp add: unat_gt_0)
  have sz0: "0 < ?sz" using False by (simp add: unat_gt_0)
  have L64: "?L < 2 ^ 64" using unsigned_less [of "len s"] by simp
  have u_ss: "unat (start + size') = ?st + ?sz"
    using nowrap1 L64 by (intro unat_add_nowrap) simp
  have one_le: "1 \<le> start + size'" using sz0 u_ss by (simp add: word_le_nat_alt)
  have u_end: "unat ?end = ?st + ?sz - 1" using unat_sub [OF one_le] u_ss by simp
  have st_en: "?st \<le> unat ?end" using sz0 u_end by simp
  have en1: "unat ?end + 1 < 2 ^ 64" using u_end sz0 nowrap1 L64 by simp
  have u_eb: "unat ?eb = unat ?end div ?bs" by (simp add: unat_div)
  have u_sb: "unat ?sb = ?st div ?bs" by (simp add: unat_div)
  have nw: "(unat ?eb + 1) * ?bs < 2 ^ 64"
  proof -
    have "unat ?eb * ?bs \<le> unat ?end" by (simp add: u_eb)
    then have "(unat ?eb + 1) * ?bs \<le> unat ?end + ?bs" by simp
    also have "\<dots> < ?L + ?bs" using u_end sz0 nowrap1 by simp
    finally show ?thesis using nowrap2 by simp
  qed
  have sbeb: "?sb \<le> ?eb" using st_en by (simp add: word_le_nat_alt u_eb u_sb div_le_mono)
  from avail rdy have loop: "is_data_available_loop ?m ?sb ?eb = Some True"
    by (simp add: is_data_available_def Let_def split: if_splits)
  have present: "\<And>k. ?sb \<le> k \<Longrightarrow> k \<le> ?eb \<Longrightarrow> k \<in> set (map_keys ?m)"
    using is_data_available_loop_present [OF loop] by (simp add: map_count_keys)
  have sb_in: "?sb \<in> set (map_keys ?m)" using present [of ?sb] sbeb by simp
  let ?itr = "map_find ?m ?sb"
  have itr_ok: "map_ok ?itr" using ok by (rule map_find_ok)
  have itr_hd: "?sb \<le> ?eb \<longrightarrow> ?itr \<noteq> [] \<and> fst (hd ?itr) = ?sb"
    using map_find_hd [OF sb_in] by simp
  have itr_pres: "\<forall>k. ?sb \<le> k \<and> k \<le> ?eb \<longrightarrow> k \<in> set (map_keys ?itr)"
  proof (intro allI impI)
    fix k assume a: "?sb \<le> k \<and> k \<le> ?eb"
    then have "k \<in> set (map_keys ?m)" using present by simp
    then have "map_of ?m k \<noteq> None" by (simp add: map_keys_def map_of_eq_None_iff)
    then have "map_of ?itr k \<noteq> None" using map_find_map_of [OF ok sb_in, of k] a by simp
    then show "k \<in> set (map_keys ?itr)" by (simp add: map_keys_def map_of_eq_None_iff)
  qed
  have itr_lens: "\<forall>(k, v) \<in> set ?itr. k \<le> ?eb \<longrightarrow>
       min (unat ?end + 1) ((unat k + 1) * ?bs) - unat k * ?bs \<le> length v"
  proof (intro ballI, clarify)
    fix k v assume kv: "(k, v) \<in> set ?itr" and "k \<le> ?eb"
    from kv have "(k, v) \<in> set ?m" using map_find_subset by blast
    with blocks have b: "block_ok cfg (len s) k v" by blast
    have e: "unat ?end + 1 \<le> ?L" using u_end sz0 nowrap1 by simp
    have len: "length v = min ?bs (?L - unat k * ?bs)" using b by (simp add: block_ok_def)
    have m: "(unat k + 1) * ?bs = unat k * ?bs + ?bs" by simp
    show "min (unat ?end + 1) ((unat k + 1) * ?bs) - unat k * ?bs \<le> length v"
      unfolding len m using e by linarith
  qed
  have sb_le: "?st div ?bs \<le> unat ?sb" by (simp add: u_sb)
  have bnd: "unat ?sb \<le> unat ?eb + 1" using sbeb by (simp add: word_le_nat_alt)
  have loop_res: "get_data_loop ?bsw start ?end ?eb ?sb ?itr [] =
     Inr ([] @ map (\<lambda>i. the (map_of ?itr (word_of_nat (i div ?bs))) ! (i mod ?bs))
                  [max ?st (unat ?sb * ?bs) ..< unat ?end + 1])"
    by (rule get_data_loop_correct [OF bs0 nw en1 u_eb st_en itr_ok itr_hd itr_pres itr_lens sb_le bnd])
  have lo: "max ?st (unat ?sb * ?bs) = ?st" by (simp add: u_sb)
  have hi: "unat ?end + 1 = ?st + ?sz" using u_end sz0 by simp
  have same: "map (\<lambda>i. the (map_of ?itr (word_of_nat (i div ?bs))) ! (i mod ?bs)) [?st ..< ?st + ?sz]
      = map (cache_byte cfg ?m) [?st ..< ?st + ?sz]"
  proof (rule map_cong [OF refl])
    fix i assume "i \<in> set [?st ..< ?st + ?sz]"
    then have i: "?st \<le> i" "i < ?st + ?sz" unfolding set_upt atLeastLessThan_iff by simp_all
    have "i < 2 ^ 64" using i(2) nowrap1 L64 by linarith
    moreover have "i div ?bs \<le> i" by (rule div_le_dividend)
    ultimately have "i div ?bs < 2 ^ 64" by (rule le_less_trans [rotated])
    then have "unat (word_of_nat (i div ?bs) :: u64) = i div ?bs" by (simp add: unat_of_nat)
    then have "?sb \<le> word_of_nat (i div ?bs)"
      using i(1) by (simp add: word_le_nat_alt u_sb div_le_mono)
    then show "the (map_of ?itr (word_of_nat (i div ?bs))) ! (i mod ?bs) = cache_byte cfg ?m i"
      using map_find_map_of [OF ok sb_in] by (simp add: cache_byte_def)
  qed
  have "get_data cfg s start size' = get_data_loop ?bsw start ?end ?eb ?sb ?itr []"
    using rdy False map_find_hd [OF sb_in] by (simp add: get_data_def Let_def)
  then show ?thesis using loop_res same by (simp only: lo hi) simp
qed

lemma map_assign_subset: "set (map_assign k v m) \<subseteq> insert (k, v) (set m)"
  by (induction m) (auto split: if_splits)

lemma set_data_subset:
  "set (downloaded_data (set_data cfg s b d)) \<subseteq> insert (b, d) (set (downloaded_data s))"
proof -
  let ?m = "map_assign b d (downloaded_data s)"
  have "set (tl ?m) \<subseteq> set ?m" by (cases ?m) auto
  moreover have "set (butlast ?m) \<subseteq> set ?m" by (auto dest: in_set_butlastD)
  ultimately show ?thesis using map_assign_subset [of b d "downloaded_data s"]
    by (auto simp: set_data_def Let_def)
qed

lemma set_data_fields [simp]:
  "len (set_data cfg s b d) = len s" "ready (set_data cfg s b d) = ready s"
  by (simp_all add: set_data_def Let_def)

lemma inserts_fields [simp]:
  "len (inserts cfg s ops) = len s" "ready (inserts cfg s ops) = ready s"
  by (induction ops arbitrary: s) auto

lemma inserts_map_ok:
  "map_ok (downloaded_data s) \<Longrightarrow> map_ok (downloaded_data (inserts cfg s ops))"
proof (induction ops arbitrary: s)
  case Nil
  then show ?case by simp
next
  case (Cons op ops)
  obtain rh b d where op: "op = (rh, b, d)" by (cases op)
  have "map_ok (downloaded_data (set_data cfg (s\<lparr>read_head := rh\<rparr>) b d))"
    using Cons.prems by (simp add: set_data_map_ok)
  then show ?case using Cons.IH by (simp add: op)
qed

lemma inserts_blocks:
  "\<forall>(k, v) \<in> set (downloaded_data s). P k v \<Longrightarrow> \<forall>(rh, b, d) \<in> set ops. P b d \<Longrightarrow>
   \<forall>(k, v) \<in> set (downloaded_data (inserts cfg s ops)). P k v"
proof (induction ops arbitrary: s)
  case Nil
  then show ?case by simp
next
  case (Cons op ops)
  obtain rh b d where op: "op = (rh, b, d)" by (cases op)
  let ?s = "set_data cfg (s\<lparr>read_head := rh\<rparr>) b d"
  have "\<forall>(k, v) \<in> set (downloaded_data ?s). P k v"
    using set_data_subset [of cfg "s\<lparr>read_head := rh\<rparr>" b d] Cons.prems by (auto simp: op)
  moreover have "\<forall>(rh, b, d) \<in> set ops. P b d" using Cons.prems(2) by simp
  ultimately show ?case using Cons.IH [of ?s] by (simp add: op)
qed

lemma inserts_last_insert:
  "map_ok (downloaded_data s) \<Longrightarrow> map_of (downloaded_data (inserts cfg s ops)) k = Some v \<Longrightarrow>
   (case last_insert ops k of Some d \<Rightarrow> v = d | None \<Rightarrow> map_of (downloaded_data s) k = Some v)"
proof (induction ops arbitrary: s)
  case Nil
  then show ?case by simp
next
  case (Cons op ops)
  obtain rh b d where op: "op = (rh, b, d)" by (cases op)
  let ?t = "s\<lparr>read_head := rh\<rparr>"
  let ?s = "set_data cfg ?t b d"
  have ok0: "map_ok (downloaded_data ?t)" using Cons.prems(1) by simp
  have ok: "map_ok (downloaded_data ?s)" using ok0 by (simp add: set_data_map_ok)
  have res: "map_of (downloaded_data (inserts cfg ?s ops)) k = Some v"
    using Cons.prems(2) by (simp add: op)
  note IH = Cons.IH [OF ok res]
  show ?case
  proof (cases "last_insert ops k")
    case (Some d')
    then show ?thesis using IH by (simp add: op)
  next
    case None
    then have "map_of (downloaded_data ?s) k = Some v" using IH by simp
    then have "((map_of (downloaded_data s))(b \<mapsto> d)) k = Some v"
      using set_data_map_of [OF ok0, of cfg b d] by (auto simp: Let_def split: if_splits)
    then show ?thesis using None by (auto simp: op split: if_splits)
  qed
qed

text \<open>
  C4 (amended). Take a stream with an empty cache and a length \<open>len\<close> such that
  \<open>len + BLOCK_SIZE\<close> does not exceed \<open>2^64\<close>, insert any sequence of blocks of correct
  length, and let \<open>is_data_available start size\<close> hold for a range whose end
  \<open>start + size\<close>, computed without wrap-around, is at most \<open>len\<close>. Then \<open>get_data\<close>
  returns exactly \<open>size\<close> bytes, and byte \<open>i\<close> of them is byte
  \<open>(start + i) mod BLOCK_SIZE\<close> of the block that was inserted last at index
  \<open>(start + i) div BLOCK_SIZE\<close>.
\<close>

theorem read_returns_inserted_bytes:
  assumes bs: "BLOCK_SIZE cfg \<noteq> 0"
    and nowrap2: "unat (len s0) + unat (BLOCK_SIZE cfg) \<le> 2 ^ 64"
    and empty: "downloaded_data s0 = []"
    and blocks: "\<forall>(rh, b, d) \<in> set ops. block_ok cfg (len s0) b d"
    and nowrap1: "unat start + unat size' \<le> unat (len s0)"
    and avail: "is_data_available cfg (inserts cfg s0 ops) start size' = Some True"
  shows "\<exists>bytes. get_data cfg (inserts cfg s0 ops) start size' = Inr bytes
     \<and> length bytes = unat size'
     \<and> (\<forall>i < unat size'. bytes ! i =
           the (last_insert ops (word_of_nat ((unat start + i) div unat (BLOCK_SIZE cfg))))
             ! ((unat start + i) mod unat (BLOCK_SIZE cfg)))"
proof -
  let ?s = "inserts cfg s0 ops"
  let ?bs = "unat (BLOCK_SIZE cfg)"
  have ok0: "map_ok (downloaded_data s0)" by (simp add: empty)
  have ok: "map_ok (downloaded_data ?s)" using ok0 by (rule inserts_map_ok)
  have bl: "\<forall>(k, v) \<in> set (downloaded_data ?s). block_ok cfg (len ?s) k v"
    using inserts_blocks [of s0 "block_ok cfg (len s0)" ops cfg] blocks by (simp add: empty)
  have rdy': "ready ?s" using avail by (auto simp: is_data_available_def split: if_splits)
  have nw1: "unat start + unat size' \<le> unat (len ?s)" using nowrap1 by simp
  have nw2: "unat (len ?s) + ?bs \<le> 2 ^ 64" using nowrap2 by simp
  let ?bytes = "map (cache_byte cfg (downloaded_data ?s)) [unat start ..< unat start + unat size']"
  have g: "get_data cfg ?s start size' = Inr ?bytes"
    by (rule get_data_correct [OF bs rdy' ok bl avail nw1 nw2])
  have "\<forall>i < unat size'. ?bytes ! i =
      the (last_insert ops (word_of_nat ((unat start + i) div ?bs))) ! ((unat start + i) mod ?bs)"
  proof (intro allI impI)
    fix i assume i: "i < unat size'"
    let ?k = "word_of_nat ((unat start + i) div ?bs) :: u64"
    have "?k \<in> set (map_keys (downloaded_data ?s))"
      using available_present [OF bs rdy' avail nw1, of "unat start + i"] i by simp
    then have "map_of (downloaded_data ?s) ?k \<noteq> None"
      by (simp add: map_keys_def map_of_eq_None_iff)
    then obtain v where v: "map_of (downloaded_data ?s) ?k = Some v" by blast
    from inserts_last_insert [OF ok0 v] have "last_insert ops ?k = Some v"
      by (auto simp: empty split: option.splits)
    then show "?bytes ! i = the (last_insert ops ?k) ! ((unat start + i) mod ?bs)"
      using i v by (simp add: cache_byte_def)
  qed
  then show ?thesis using g by simp
qed

theorem read_returns_inserted_bytes_witness:
  "get_data demo_config (inserts demo_config demo_empty demo_ops) 2 4 = Inr [3, 4, 5, 6]
   \<and> the (last_insert demo_ops 0) ! 2 = 3 \<and> the (last_insert demo_ops 1) ! 1 = 6"
proof -
  have h1: "BLOCK_SIZE demo_config \<noteq> 0" by (simp add: demo_config_def)
  have h2: "unat (len demo_empty) + unat (BLOCK_SIZE demo_config) \<le> 2 ^ 64"
    by (simp add: demo_config_def demo_empty_def demo_stream_def)
  have h4: "downloaded_data demo_empty = []" by (simp add: demo_empty_def)
  have h5: "\<forall>(rh, b, d) \<in> set demo_ops. block_ok demo_config (len demo_empty) b d"
    by (simp add: demo_ops_def block_ok_def demo_config_def demo_empty_def demo_stream_def)
  have h6: "unat (2 :: u64) + unat (4 :: u64) \<le> unat (len demo_empty)"
    by (simp add: demo_empty_def demo_stream_def)
  have h7: "is_data_available demo_config (inserts demo_config demo_empty demo_ops) 2 4 = Some True"
    by (simp add: is_data_available_def is_data_available_loop.simps map_count_def Let_def
        demo_ops_def demo_empty_def demo_stream_def demo_config_def set_data_def word_le_nat_alt)
  from read_returns_inserted_bytes [OF h1 h2 h4 h5 h6 h7]
  obtain bytes where b: "get_data demo_config (inserts demo_config demo_empty demo_ops) 2 4 = Inr bytes"
    and l: "length bytes = unat (4 :: u64)"
    and n: "\<forall>i < unat (4 :: u64). bytes ! i =
           the (last_insert demo_ops (word_of_nat ((unat (2 :: u64) + i) div unat (BLOCK_SIZE demo_config))))
             ! ((unat (2 :: u64) + i) mod unat (BLOCK_SIZE demo_config))"
    by blast
  have "get_data demo_config (inserts demo_config demo_empty demo_ops) 2 4 = Inr [3, 4, 5, 6]"
    by code_simp
  moreover have "the (last_insert demo_ops 0) ! 2 = 3" "the (last_insert demo_ops 1) ! 1 = 6"
    by (simp_all add: demo_ops_def)
  ultimately show ?thesis using b by simp
qed

text \<open>
  C4 as stated fails where \<open>start + size\<close> wraps around: for \<open>start = 2^64 - 1\<close> and
  \<open>size = 2\<close> the sum is 1, the loop of \<open>is_data_available\<close> runs from a large block
  index down to block 0 and so checks nothing, and \<open>get_data\<close> stops at its first
  \<open>assert\<close> (compiled without assertions it would skip its loop in the same way and
  return no byte at all).
\<close>

theorem read_of_wrapped_range_fails:
  "(\<forall>(rh, b, d) \<in> set demo_ops. block_ok demo_config (len demo_empty) b d) = True
   \<and> is_data_available demo_config (inserts demo_config demo_empty demo_ops) (- 1) 2 = Some True
   \<and> get_data demo_config (inserts demo_config demo_empty demo_ops) (- 1) 2 = Inl AssertionFailed"
proof -
  have "\<forall>(rh, b, d) \<in> set demo_ops. block_ok demo_config (len demo_empty) b d"
    by (simp add: demo_ops_def block_ok_def demo_config_def demo_empty_def demo_stream_def)
  moreover have "is_data_available demo_config (inserts demo_config demo_empty demo_ops) (- 1) 2 = Some True"
    by (simp add: is_data_available_def is_data_available_loop.simps map_count_def Let_def
        demo_ops_def demo_empty_def demo_stream_def demo_config_def set_data_def word_le_nat_alt)
  moreover have "get_data demo_config (inserts demo_config demo_empty demo_ops) (- 1) 2 = Inl AssertionFailed"
    by code_simp
  ultimately show ?thesis by simp
qed

text \<open>
  The bound on \<open>len\<close> is needed as well: when the last block of the stream ends beyond
  \<open>2^64\<close>, the product \<open>(block + 1) * BLOCK_SIZE\<close> wraps around, and \<open>get_data\<close> copies
  beyond the end of the short last block.
\<close>

lemma read_in_last_block_near_2_64:
  "block_ok demo_config (len huge_stream) 4611686018427387903 [1, 2, 3]
   \<and> is_data_available demo_config
        (inserts demo_config huge_stream [(0, 4611686018427387903, [1, 2, 3])]) 18446744073709551612 1 = Some True
   \<and> get_data demo_config
        (inserts demo_config huge_stream [(0, 4611686018427387903, [1, 2, 3])]) 18446744073709551612 1
       = Inl UndefinedBehaviour"
proof -
  have 1: "block_ok demo_config (len huge_stream) 4611686018427387903 [1, 2, 3]"
    by (simp add: block_ok_def demo_config_def huge_stream_def demo_stream_def)
  have 2: "is_data_available demo_config
        (inserts demo_config huge_stream [(0, 4611686018427387903, [1, 2, 3])]) 18446744073709551612 1 = Some True"
    by (simp add: is_data_available_def is_data_available_loop.simps map_count_def Let_def
        huge_stream_def demo_stream_def demo_config_def set_data_def word_le_nat_alt)
  have 3: "get_data demo_config
        (inserts demo_config huge_stream [(0, 4611686018427387903, [1, 2, 3])]) 18446744073709551612 1
       = Inl UndefinedBehaviour"
    by code_simp
  from 1 2 3 show ?thesis by simp
qed

section \<open>Properties of \<open>get_download_percentage\<close>\<close>

text \<open>
  C8 fails on the code. In the first scenario of the specification all four blocks are
  cached; they hold 200000 bytes, which is 100 percent of the stream, but
  \<open>get_download_percentage\<close> counts the short last block as a full one and returns
  \<open>4 * 65536 / 200000 * 100 = 131.072\<close>.
\<close>

theorem download_percentage_exceeds_100:
  "ready (scenario_stream scenario_blocks)
   \<and> map_keys (downloaded_data (scenario_stream scenario_blocks)) = [0, 1, 2, 3]
   \<and> block_num (scenario_stream scenario_blocks) = 4
   \<and> real (cached_bytes (scenario_stream scenario_blocks)) * 100
        / real (unat (len (scenario_stream scenario_blocks))) = 100
   \<and> get_download_percentage scenario_config (scenario_stream scenario_blocks)
        = Finite (131072 / 1000)"
  by (simp add: scenario_stream_def scenario_blocks_def scenario_config_def cached_bytes_def
      get_download_percentage_def double_of_u64_def)

section \<open>Properties of \<open>seek_network_stream\<close>\<close>

lemma seek_wait_ready_ready: "ready s \<Longrightarrow> seek_wait_ready s = Some (Inr s)"
  by (subst seek_wait_ready.simps) simp

text \<open>
  C9. On a ready stream, a seek with \<open>SEEK_SET\<close>, \<open>SEEK_CUR\<close> or \<open>SEEK_END\<close> computes
  \<open>new\<close> as \<open>offset\<close>, \<open>read_head + offset\<close> or \<open>len + offset\<close> (in 64 bits). For
  \<open>new > len\<close> it returns \<open>-1\<close> and leaves the read head alone; otherwise it sets the
  read head to \<open>new\<close> and returns \<open>new\<close>. In both cases the only other field it writes
  is \<open>network_waiting_status\<close>, so the cache is as before.
\<close>

theorem seek_moves_only_the_read_head:
  assumes "ready s"
    and "whence = SEEK_SET \<or> whence = SEEK_CUR \<or> whence = SEEK_END"
  shows "(let new = (if whence = SEEK_SET then offset
                     else if whence = SEEK_CUR then read_head s + offset
                     else len s + offset)
          in seek_network_stream s offset whence =
               Some (if new > len s then (- 1, s\<lparr>network_waiting_status := None\<rparr>)
                     else (new, s\<lparr>network_waiting_status := None, read_head := new\<rparr>))
             \<and> map_option (\<lambda>(r, s'). downloaded_data s') (seek_network_stream s offset whence)
                 = Some (downloaded_data s))"
  using assms
  by (auto simp: seek_network_stream_def seek_wait_ready_ready Let_def
      SEEK_SET_def SEEK_CUR_def SEEK_END_def AVSEEK_SIZE_def)

theorem seek_moves_only_the_read_head_witness:
  "seek_network_stream demo_stream 41 SEEK_SET = Some (- 1, demo_stream)
   \<and> seek_network_stream demo_stream 12 SEEK_SET = Some (12, demo_stream\<lparr>read_head := 12\<rparr>)
   \<and> seek_network_stream (demo_stream\<lparr>read_head := 12\<rparr>) (- 4) SEEK_CUR
        = Some (8, demo_stream\<lparr>read_head := 8\<rparr>)
   \<and> seek_network_stream demo_stream (- 4) SEEK_END = Some (36, demo_stream\<lparr>read_head := 36\<rparr>)
   \<and> map_option (\<lambda>(r, s'). downloaded_data s') (seek_network_stream demo_stream 12 SEEK_SET)
       = Some [(5, [1, 2, 3, 4]), (6, [5, 6, 7, 8])]"
  using seek_moves_only_the_read_head [of demo_stream SEEK_SET 41]
    seek_moves_only_the_read_head [of demo_stream SEEK_SET 12]
    seek_moves_only_the_read_head [of "demo_stream\<lparr>read_head := 12\<rparr>" SEEK_CUR "- 4"]
    seek_moves_only_the_read_head [of demo_stream SEEK_END "- 4"]
  by (simp add: demo_stream_def SEEK_SET_def SEEK_CUR_def SEEK_END_def)

section \<open>The outcome of a fetch\<close>

text \<open>
  C10. A whole-mode fetch that reports success (\<open>fail\<close> is false, the status is 2xx)
  with an empty body takes the failure branch: \<open>error\<close> is set, and \<open>len\<close>,
  \<open>block_num\<close>, \<open>ready\<close> and the cache are left as they were.
\<close>

theorem whole_download_empty_body:
  assumes "\<not> fail result" and "status_code_is_success result" and "data result = []"
  shows "\<exists>s'. whole_download_result cfg s result = Some s' \<and> error s'
     \<and> len s' = len s \<and> block_num s' = block_num s \<and> ready s' = ready s
     \<and> downloaded_data s' = downloaded_data s"
  using assms by (simp add: whole_download_result_def Let_def)

theorem whole_download_empty_body_witness:
  "\<exists>s'. whole_download_result demo_config demo_live demo_empty_ok = Some s' \<and> error s'
     \<and> len s' = 0 \<and> block_num s' = 0 \<and> \<not> ready s' \<and> downloaded_data s' = []"
  using whole_download_empty_body [of demo_empty_ok demo_config demo_live]
  by (simp add: demo_empty_ok_def demo_live_def status_code_is_success_def)

text \<open>
  C6 (amended). A whole-mode fetch that fails (\<open>fail\<close> is set, or the status is not
  2xx, or the body is empty) sets \<open>error\<close>, and in addition \<open>livestream_eof\<close> for the
  status 204 or 404 and \<open>livestream_private\<close> for the status 403; any other status
  leaves both flags as they were. A ranged fetch whose call fails sets \<open>error\<close> only,
  whatever the status code.
\<close>

theorem fetch_failure_flags:
  "(fail result \<or> \<not> status_code_is_success result \<or> data result = [] \<longrightarrow>
      whole_download_result cfg s result =
        Some (s\<lparr>url := redirected_url result, error := True,
                livestream_eof := (livestream_eof s \<or> status_code result = 204
                                    \<or> status_code result = 404),
                livestream_private := (livestream_private s
                                    \<or> (status_code result = 403))\<rparr>))
   \<and> (fail result \<longrightarrow>
      ranged_download_result cfg t block_reading result =
        t\<lparr>url := redirected_url result, error := True\<rparr>)"
  by (auto simp: whole_download_result_def ranged_download_result_def Let_def
      HTTP_STATUS_CODE_NO_CONTENT_def HTTP_STATUS_CODE_NOT_FOUND_def
      HTTP_STATUS_CODE_FORBIDDEN_def)

theorem fetch_failure_flags_witness:
  "whole_download_result demo_config demo_live demo_not_found =
      Some (demo_live\<lparr>url := ''v'', error := True, livestream_eof := True\<rparr>)
   \<and> ranged_download_result demo_config demo_stream 0 demo_not_found =
      demo_stream\<lparr>url := ''v'', error := True\<rparr>"
  using fetch_failure_flags [where result = demo_not_found and cfg = demo_config
      and s = demo_live and t = demo_stream and block_reading = 0]
  by (simp add: demo_not_found_def demo_live_def demo_stream_def)

text \<open>
  C6 as stated fails for ranged fetches: a failed call with the status 404 sets \<open>error\<close>
  and leaves \<open>livestream_eof\<close> false.
\<close>

theorem ranged_failure_sets_no_livestream_flag:
  "fail demo_not_found \<and> status_code demo_not_found = 404
   \<and> \<not> whole_download demo_stream \<and> \<not> livestream_eof demo_stream
   \<and> error (ranged_download_result demo_config demo_stream 0 demo_not_found)
   \<and> \<not> livestream_eof (ranged_download_result demo_config demo_stream 0 demo_not_found)"
  by (simp add: demo_not_found_def demo_stream_def ranged_download_result_def Let_def)

section \<open>The two searches for the next block\<close>

lemma first_not_downloaded_block_stop:
  "\<not> (b < block_num s \<and> map_count (downloaded_data s) b) \<Longrightarrow>
   first_not_downloaded_block cfg s r b = b"
  by (subst first_not_downloaded_block.simps) auto

lemma first_not_downloaded_block_break:
  "b < block_num s \<and> map_count (downloaded_data s) b \<Longrightarrow>
   b + 1 = r + MAX_FORWARD_READ_BLOCKS cfg \<Longrightarrow>
   first_not_downloaded_block cfg s r b = b + 1"
  by (subst first_not_downloaded_block.simps) auto

lemma first_not_downloaded_block_step:
  "b < block_num s \<and> map_count (downloaded_data s) b \<Longrightarrow>
   b + 1 \<noteq> r + MAX_FORWARD_READ_BLOCKS cfg \<Longrightarrow>
   first_not_downloaded_block cfg s r b = first_not_downloaded_block cfg s r (b + 1)"
  by (subst first_not_downloaded_block.simps) auto

lemma next_block_reading_stop:
  "\<not> (b < block_num s \<and> map_count (downloaded_data s) b) \<Longrightarrow> next_block_reading s b = b"
  by (subst next_block_reading.simps) auto

lemma next_block_reading_step:
  "b < block_num s \<and> map_count (downloaded_data s) b \<Longrightarrow>
   next_block_reading s b = next_block_reading s (b + 1)"
  by (subst next_block_reading.simps) auto

lemma first_not_downloaded_block_ge:
  "unat b \<le> unat (first_not_downloaded_block cfg s r b)"
proof (induction cfg s r b rule: first_not_downloaded_block.induct)
  case (1 cfg s r b)
  show ?case
  proof (cases "b < block_num s \<and> map_count (downloaded_data s) b")
    case False
    then show ?thesis by (simp add: first_not_downloaded_block_stop)
  next
    case True
    then have u: "unat (b + 1) = Suc (unat b)" using unat_plus_one_less [of b "block_num s"] by simp
    show ?thesis
    proof (cases "b + 1 = r + MAX_FORWARD_READ_BLOCKS cfg")
      case t: True
      show ?thesis using u by (simp add: first_not_downloaded_block_break [OF True t])
    next
      case f: False
      show ?thesis using u "1.IH" [OF True f]
        by (simp add: first_not_downloaded_block_step [OF True f])
    qed
  qed
qed

lemma first_not_downloaded_block_le:
  "b \<le> block_num s \<Longrightarrow> first_not_downloaded_block cfg s r b \<le> block_num s"
proof (induction cfg s r b rule: first_not_downloaded_block.induct)
  case (1 cfg s r b)
  show ?case
  proof (cases "b < block_num s \<and> map_count (downloaded_data s) b")
    case False
    then show ?thesis using "1.prems" by (simp add: first_not_downloaded_block_stop)
  next
    case True
    then have u: "unat (b + 1) = Suc (unat b)" using unat_plus_one_less [of b "block_num s"] by simp
    have le: "b + 1 \<le> block_num s" using True u by (simp add: word_le_nat_alt word_less_nat_alt)
    show ?thesis
    proof (cases "b + 1 = r + MAX_FORWARD_READ_BLOCKS cfg")
      case t: True
      show ?thesis using le by (simp add: first_not_downloaded_block_break [OF True t])
    next
      case f: False
      show ?thesis using "1.IH" [OF True f le]
        by (simp add: first_not_downloaded_block_step [OF True f])
    qed
  qed
qed

lemma first_not_downloaded_block_window:
  "unat b < unat r + unat (MAX_FORWARD_READ_BLOCKS cfg) \<Longrightarrow>
   first_not_downloaded_block cfg s r b \<noteq> r + MAX_FORWARD_READ_BLOCKS cfg \<Longrightarrow>
   unat (first_not_downloaded_block cfg s r b) < unat r + unat (MAX_FORWARD_READ_BLOCKS cfg)"
proof (induction cfg s r b rule: first_not_downloaded_block.induct)
  case (1 cfg s r b)
  show ?case
  proof (cases "b < block_num s \<and> map_count (downloaded_data s) b")
    case False
    then show ?thesis using "1.prems"(1) by (simp add: first_not_downloaded_block_stop)
  next
    case True
    then have u: "unat (b + 1) = Suc (unat b)" using unat_plus_one_less [of b "block_num s"] by simp
    show ?thesis
    proof (cases "b + 1 = r + MAX_FORWARD_READ_BLOCKS cfg")
      case t: True
      then have "first_not_downloaded_block cfg s r b = r + MAX_FORWARD_READ_BLOCKS cfg"
        by (simp add: first_not_downloaded_block_break [OF True t])
      with "1.prems"(2) show ?thesis by simp
    next
      case f: False
      note eq = first_not_downloaded_block_step [OF True f]
      have "unat (b + 1) \<noteq> unat r + unat (MAX_FORWARD_READ_BLOCKS cfg)"
      proof
        assume a: "unat (b + 1) = unat r + unat (MAX_FORWARD_READ_BLOCKS cfg)"
        have "b + 1 = word_of_nat (unat (b + 1))" by simp
        also have "\<dots> = word_of_nat (unat r + unat (MAX_FORWARD_READ_BLOCKS cfg))" by (simp only: a)
        also have "\<dots> = r + MAX_FORWARD_READ_BLOCKS cfg" by simp
        finally show False using f by simp
      qed
      then have "unat (b + 1) < unat r + unat (MAX_FORWARD_READ_BLOCKS cfg)"
        using "1.prems"(1) u by simp
      then show ?thesis using "1.IH" [OF True f] "1.prems"(2) by (simp add: eq)
    qed
  qed
qed

lemma first_not_downloaded_block_next:
  "first_not_downloaded_block cfg s r b \<noteq> r + MAX_FORWARD_READ_BLOCKS cfg \<Longrightarrow>
   first_not_downloaded_block cfg s r b = next_block_reading s b"
proof (induction cfg s r b rule: first_not_downloaded_block.induct)
  case (1 cfg s r b)
  show ?case
  proof (cases "b < block_num s \<and> map_count (downloaded_data s) b")
    case False
    then show ?thesis
      by (simp add: first_not_downloaded_block_stop next_block_reading_stop)
  next
    case True
    show ?thesis
    proof (cases "b + 1 = r + MAX_FORWARD_READ_BLOCKS cfg")
      case t: True
      then have "first_not_downloaded_block cfg s r b = r + MAX_FORWARD_READ_BLOCKS cfg"
        by (simp add: first_not_downloaded_block_break [OF True t])
      with "1.prems" show ?thesis by simp
    next
      case f: False
      note eq = first_not_downloaded_block_step [OF True f]
      note eq2 = next_block_reading_step [OF True]
      show ?thesis using "1.IH" [OF True f] "1.prems" by (simp add: eq eq2)
    qed
  qed
qed

lemma first_not_downloaded_block_cached:
  "unat b \<le> unat k \<Longrightarrow> unat k < unat (first_not_downloaded_block cfg s r b) \<Longrightarrow>
   map_count (downloaded_data s) k \<and> k < block_num s"
proof (induction cfg s r b rule: first_not_downloaded_block.induct)
  case (1 cfg s r b)
  show ?case
  proof (cases "b < block_num s \<and> map_count (downloaded_data s) b")
    case False
    then have "first_not_downloaded_block cfg s r b = b" by (rule first_not_downloaded_block_stop)
    with "1.prems" show ?thesis by simp
  next
    case True
    then have u: "unat (b + 1) = Suc (unat b)" using unat_plus_one_less [of b "block_num s"] by simp
    show ?thesis
    proof (cases "k = b")
      case kb: True
      then show ?thesis using True by simp
    next
      case kb: False
      then have le: "unat (b + 1) \<le> unat k" using "1.prems"(1) u by (simp add: word_unat_eq_iff)
      show ?thesis
      proof (cases "b + 1 = r + MAX_FORWARD_READ_BLOCKS cfg")
        case t: True
        have "first_not_downloaded_block cfg s r b = b + 1"
          using True t by (rule first_not_downloaded_block_break)
        with "1.prems"(2) le show ?thesis by simp
      next
        case f: False
        have "first_not_downloaded_block cfg s r b = first_not_downloaded_block cfg s r (b + 1)"
          using True f by (rule first_not_downloaded_block_step)
        with "1.IH" [OF True f le] "1.prems"(2) show ?thesis by simp
      qed
    qed
  qed
qed

lemma first_not_downloaded_block_missing:
  "first_not_downloaded_block cfg s r b \<noteq> r + MAX_FORWARD_READ_BLOCKS cfg \<Longrightarrow>
   first_not_downloaded_block cfg s r b < block_num s \<Longrightarrow>
   \<not> map_count (downloaded_data s) (first_not_downloaded_block cfg s r b)"
proof (induction cfg s r b rule: first_not_downloaded_block.induct)
  case (1 cfg s r b)
  show ?case
  proof (cases "b < block_num s \<and> map_count (downloaded_data s) b")
    case False
    then have "first_not_downloaded_block cfg s r b = b" by (rule first_not_downloaded_block_stop)
    with "1.prems" False show ?thesis by simp
  next
    case True
    show ?thesis
    proof (cases "b + 1 = r + MAX_FORWARD_READ_BLOCKS cfg")
      case t: True
      have "first_not_downloaded_block cfg s r b = b + 1"
        using True t by (rule first_not_downloaded_block_break)
      with "1.prems"(1) t show ?thesis by simp
    next
      case f: False
      have "first_not_downloaded_block cfg s r b = first_not_downloaded_block cfg s r (b + 1)"
        using True f by (rule first_not_downloaded_block_step)
      with "1.IH" [OF True f] "1.prems" show ?thesis by simp
    qed
  qed
qed

section \<open>The margin of a candidate\<close>




text \<open>
  For a stream whose read head lies within the stream, \<open>next_needed\<close> of a stream that
  needs a fetch is the block the specification describes: the smallest index from the
  block of the read head on that is not cached, and it lies before the end of the stream
  and inside the forward window.
\<close>

lemma next_needed_is_first_missing_block:
  assumes M: "MAX_FORWARD_READ_BLOCKS cfg \<noteq> 0"
    and nf: "needs_fetch cfg s"
    and r: "read_head s div BLOCK_SIZE cfg \<le> block_num s"
  shows "unat (read_head s div BLOCK_SIZE cfg) \<le> unat (next_needed cfg s)
     \<and> \<not> map_count (downloaded_data s) (next_needed cfg s)
     \<and> next_needed cfg s < block_num s
     \<and> unat (next_needed cfg s)
          < unat (read_head s div BLOCK_SIZE cfg) + unat (MAX_FORWARD_READ_BLOCKS cfg)
     \<and> (\<forall>k. unat (read_head s div BLOCK_SIZE cfg) \<le> unat k \<and> unat k < unat (next_needed cfg s)
            \<longrightarrow> map_count (downloaded_data s) k)"
proof -
  let ?r = "read_head s div BLOCK_SIZE cfg"
  have ge: "unat ?r \<le> unat (next_needed cfg s)"
    unfolding next_needed_def by (rule first_not_downloaded_block_ge)
  have "next_needed cfg s \<le> block_num s"
    unfolding next_needed_def using r by (rule first_not_downloaded_block_le)
  moreover have ne: "next_needed cfg s \<noteq> block_num s"
    "next_needed cfg s \<noteq> ?r + MAX_FORWARD_READ_BLOCKS cfg"
    using nf by (simp_all add: needs_fetch_def)
  ultimately have lt: "next_needed cfg s < block_num s" by simp
  have miss: "\<not> map_count (downloaded_data s) (next_needed cfg s)"
    using ne(2) lt unfolding next_needed_def by (rule first_not_downloaded_block_missing)
  have start: "unat ?r < unat ?r + unat (MAX_FORWARD_READ_BLOCKS cfg)"
    using M by (simp add: unat_gt_0)
  have win: "unat (next_needed cfg s) < unat ?r + unat (MAX_FORWARD_READ_BLOCKS cfg)"
    using start ne(2) unfolding next_needed_def by (rule first_not_downloaded_block_window)
  have before: "\<forall>k. unat ?r \<le> unat k \<and> unat k < unat (next_needed cfg s)
            \<longrightarrow> map_count (downloaded_data s) k"
    using first_not_downloaded_block_cached [of ?r _ cfg s ?r]
    unfolding next_needed_def by blast
  from ge miss lt win before show ?thesis by blast
qed

section \<open>The stream a tick selects\<close>

lemma find_next_stream_end:
  "\<not> i < length ss \<Longrightarrow> find_next_stream cfg rhs i ss m cur = (ss, cur)"
  by (subst find_next_stream.simps) simp

lemma find_next_stream_none:
  "i < length ss \<Longrightarrow> ss ! i = None \<Longrightarrow>
   find_next_stream cfg rhs i ss m cur = find_next_stream cfg rhs (i + 1) ss m cur"
  by (subst find_next_stream.simps) simp

lemma find_next_stream_quit:
  "i < length ss \<Longrightarrow> ss ! i = Some s \<Longrightarrow> quit_request s \<Longrightarrow>
   find_next_stream cfg rhs i ss m cur = find_next_stream cfg rhs (i + 1) (ss[i := None]) m cur"
  by (subst find_next_stream.simps) simp

lemma find_next_stream_init:
  "i < length ss \<Longrightarrow> ss ! i = Some s \<Longrightarrow> \<not> quit_request s \<Longrightarrow> \<not> error s \<Longrightarrow>
   \<not> suspend_request s \<Longrightarrow> \<not> ready s \<Longrightarrow>
   find_next_stream cfg rhs i ss m cur = (ss, Some i)"
  by (subst find_next_stream.simps) simp

lemma find_next_stream_skip:
  "i < length ss \<Longrightarrow> ss ! i = Some s \<Longrightarrow> \<not> quit_request s \<Longrightarrow>
   error s \<or> suspend_request s \<or> (ready s \<and> whole_download s)
     \<or> (ready s \<and>
         (first_not_downloaded_block cfg s (rhs ! i div BLOCK_SIZE cfg) (rhs ! i div BLOCK_SIZE cfg)
            = block_num s
          \<or> first_not_downloaded_block cfg s (rhs ! i div BLOCK_SIZE cfg) (rhs ! i div BLOCK_SIZE cfg)
            = rhs ! i div BLOCK_SIZE cfg + MAX_FORWARD_READ_BLOCKS cfg)) \<Longrightarrow>
   find_next_stream cfg rhs i ss m cur = find_next_stream cfg rhs (i + 1) ss m cur"
  by (subst find_next_stream.simps) (auto simp: Let_def)

lemma find_next_stream_candidate:
  "i < length ss \<Longrightarrow> ss ! i = Some s \<Longrightarrow> \<not> quit_request s \<Longrightarrow> \<not> error s \<Longrightarrow>
   \<not> suspend_request s \<Longrightarrow> ready s \<Longrightarrow> \<not> whole_download s \<Longrightarrow>
   b = first_not_downloaded_block cfg s (rhs ! i div BLOCK_SIZE cfg) (rhs ! i div BLOCK_SIZE cfg) \<Longrightarrow>
   b \<noteq> block_num s \<Longrightarrow> b \<noteq> rhs ! i div BLOCK_SIZE cfg + MAX_FORWARD_READ_BLOCKS cfg \<Longrightarrow>
   find_next_stream cfg rhs i ss m cur =
     (if double_gt m (margin_percentage cfg s (rhs ! i) b)
      then find_next_stream cfg rhs (i + 1) ss (margin_percentage cfg s (rhs ! i) b) (Some i)
      else find_next_stream cfg rhs (i + 1) ss m cur)"
  by (subst find_next_stream.simps) (simp add: Let_def)

lemma backup_read_heads_nth:
  "i < length ss \<Longrightarrow> ss ! i = Some s \<Longrightarrow> backup_read_heads ss ! i = read_head s"
  by (simp add: backup_read_heads_def)










section \<open>The forward window\<close>

lemma find_next_stream_step:
  assumes i: "i < length ss"
  shows "(find_next_stream cfg rhs i ss m cur = (ss, Some i)
          \<and> (\<exists>s. ss ! i = Some s \<and> selectable cfg (rhs ! i) s))
       \<or> (\<exists>ss1 m1 cur1.
             find_next_stream cfg rhs i ss m cur = find_next_stream cfg rhs (i + 1) ss1 m1 cur1
             \<and> (ss1 = ss \<or> ss1 = ss[i := None])
             \<and> (cur1 = cur \<or> (cur1 = Some i \<and> ss1 = ss
                                \<and> (\<exists>s. ss ! i = Some s \<and> selectable cfg (rhs ! i) s))))"
proof (cases "ss ! i")
  case None
  then have "find_next_stream cfg rhs i ss m cur = find_next_stream cfg rhs (i + 1) ss m cur"
    using i by (simp add: find_next_stream_none)
  then show ?thesis by blast
next
  case (Some s)
  show ?thesis
  proof (cases "quit_request s")
    case True
    then have "find_next_stream cfg rhs i ss m cur
        = find_next_stream cfg rhs (i + 1) (ss[i := None]) m cur"
      using i Some by (simp add: find_next_stream_quit)
    then show ?thesis by blast
  next
    case nq: False
    show ?thesis
    proof (cases "selectable cfg (rhs ! i) s")
      case False
      have "error s \<or> suspend_request s \<or> (ready s \<and> whole_download s)
        \<or> (ready s \<and>
         (first_not_downloaded_block cfg s (rhs ! i div BLOCK_SIZE cfg) (rhs ! i div BLOCK_SIZE cfg)
            = block_num s
          \<or> first_not_downloaded_block cfg s (rhs ! i div BLOCK_SIZE cfg) (rhs ! i div BLOCK_SIZE cfg)
            = rhs ! i div BLOCK_SIZE cfg + MAX_FORWARD_READ_BLOCKS cfg))"
        using False nq unfolding selectable_def by blast
      then have "find_next_stream cfg rhs i ss m cur = find_next_stream cfg rhs (i + 1) ss m cur"
        using i Some nq by (rule find_next_stream_skip [rotated 3])
      then show ?thesis by blast
    next
      case sel: True
      then have f: "\<not> error s" "\<not> suspend_request s" unfolding selectable_def by blast+
      show ?thesis
      proof (cases "ready s")
        case False
        have "find_next_stream cfg rhs i ss m cur = (ss, Some i)"
          using i Some nq f False by (rule find_next_stream_init)
        then show ?thesis using Some sel by blast
      next
        case True
        let ?b = "first_not_downloaded_block cfg s (rhs ! i div BLOCK_SIZE cfg) (rhs ! i div BLOCK_SIZE cfg)"
        from sel True have g: "\<not> whole_download s" "?b \<noteq> block_num s"
            "?b \<noteq> rhs ! i div BLOCK_SIZE cfg + MAX_FORWARD_READ_BLOCKS cfg"
          unfolding selectable_def by blast+
        have st: "find_next_stream cfg rhs i ss m cur =
            (if double_gt m (margin_percentage cfg s (rhs ! i) ?b)
             then find_next_stream cfg rhs (i + 1) ss (margin_percentage cfg s (rhs ! i) ?b) (Some i)
             else find_next_stream cfg rhs (i + 1) ss m cur)"
          using i Some nq f True g(1) refl g(2,3) by (rule find_next_stream_candidate)
        show ?thesis
        proof (cases "double_gt m (margin_percentage cfg s (rhs ! i) ?b)")
          case False
          then have "find_next_stream cfg rhs i ss m cur = find_next_stream cfg rhs (i + 1) ss m cur"
            using st by simp
          then show ?thesis by blast
        next
          case gt: True
          then have "find_next_stream cfg rhs i ss m cur
              = find_next_stream cfg rhs (i + 1) ss (margin_percentage cfg s (rhs ! i) ?b) (Some i)"
            using st by simp
          then show ?thesis using Some sel by blast
        qed
      qed
    qed
  qed
qed

lemma find_next_stream_slots:
  "length (fst (find_next_stream cfg rhs i ss m cur)) = length ss
   \<and> (\<forall>j<length ss. fst (find_next_stream cfg rhs i ss m cur) ! j = ss ! j
                      \<or> fst (find_next_stream cfg rhs i ss m cur) ! j = None)"
proof (induction n \<equiv> "length ss - i" arbitrary: i ss m cur)
  case 0
  then have "\<not> i < length ss" by simp
  then show ?case by (simp add: find_next_stream_end)
next
  case (Suc n)
  from Suc.hyps(2) have i: "i < length ss" by simp
  from find_next_stream_step [OF i, of cfg rhs m cur] show ?case
  proof
    assume "find_next_stream cfg rhs i ss m cur = (ss, Some i)
          \<and> (\<exists>s. ss ! i = Some s \<and> selectable cfg (rhs ! i) s)"
    then show ?thesis by simp
  next
    assume "\<exists>ss1 m1 cur1.
             find_next_stream cfg rhs i ss m cur = find_next_stream cfg rhs (i + 1) ss1 m1 cur1
             \<and> (ss1 = ss \<or> ss1 = ss[i := None])
             \<and> (cur1 = cur \<or> (cur1 = Some i \<and> ss1 = ss
                                \<and> (\<exists>s. ss ! i = Some s \<and> selectable cfg (rhs ! i) s)))"
    then obtain ss1 m1 cur1 where
      eq: "find_next_stream cfg rhs i ss m cur = find_next_stream cfg rhs (i + 1) ss1 m1 cur1"
      and ss1: "ss1 = ss \<or> ss1 = ss[i := None]" by blast
    have l: "length ss1 = length ss" using ss1 by auto
    have n: "n = length ss1 - (i + 1)" using Suc.hyps(2) l by simp
    note IH = Suc.hyps(1) [OF n, of m1 cur1]
    have "\<forall>j<length ss. ss1 ! j = ss ! j \<or> ss1 ! j = None"
    proof (intro allI impI)
      fix j assume "j < length ss"
      then show "ss1 ! j = ss ! j \<or> ss1 ! j = None"
        using ss1 by (cases "j = i") auto
    qed
    then show ?thesis using IH l unfolding eq by metis
  qed
qed

lemma find_next_stream_selected:
  "snd (find_next_stream cfg rhs i ss m cur) = Some j \<Longrightarrow>
   cur = Some j \<or> (j < length ss \<and> (\<exists>s. ss ! j = Some s \<and> selectable cfg (rhs ! j) s))"
proof (induction n \<equiv> "length ss - i" arbitrary: i ss m cur)
  case 0
  then have "\<not> i < length ss" by simp
  then show ?case using 0 by (simp add: find_next_stream_end)
next
  case (Suc n)
  from Suc.hyps(2) have i: "i < length ss" by simp
  from find_next_stream_step [OF i, of cfg rhs m cur] show ?case
  proof
    assume "find_next_stream cfg rhs i ss m cur = (ss, Some i)
          \<and> (\<exists>s. ss ! i = Some s \<and> selectable cfg (rhs ! i) s)"
    then show ?thesis using Suc.prems i by auto
  next
    assume "\<exists>ss1 m1 cur1.
             find_next_stream cfg rhs i ss m cur = find_next_stream cfg rhs (i + 1) ss1 m1 cur1
             \<and> (ss1 = ss \<or> ss1 = ss[i := None])
             \<and> (cur1 = cur \<or> (cur1 = Some i \<and> ss1 = ss
                                \<and> (\<exists>s. ss ! i = Some s \<and> selectable cfg (rhs ! i) s)))"
    then obtain ss1 m1 cur1 where
      eq: "find_next_stream cfg rhs i ss m cur = find_next_stream cfg rhs (i + 1) ss1 m1 cur1"
      and ss1: "ss1 = ss \<or> ss1 = ss[i := None]"
      and cur1: "cur1 = cur \<or> (cur1 = Some i \<and> ss1 = ss
                                \<and> (\<exists>s. ss ! i = Some s \<and> selectable cfg (rhs ! i) s))" by blast
    have l: "length ss1 = length ss" using ss1 by auto
    have n: "n = length ss1 - (i + 1)" using Suc.hyps(2) l by simp
    have "snd (find_next_stream cfg rhs (i + 1) ss1 m1 cur1) = Some j" using Suc.prems eq by simp
    from Suc.hyps(1) [OF n this]
    have "cur1 = Some j \<or> (j < length ss1 \<and> (\<exists>s. ss1 ! j = Some s \<and> selectable cfg (rhs ! j) s))" .
    then show ?thesis
    proof
      assume "cur1 = Some j"
      then show ?thesis using cur1 i by auto
    next
      assume a: "j < length ss1 \<and> (\<exists>s. ss1 ! j = Some s \<and> selectable cfg (rhs ! j) s)"
      then obtain s where s: "ss1 ! j = Some s" "selectable cfg (rhs ! j) s" by blast
      have "ss ! j = Some s"
        using ss1 s(1) a by (cases "j = i") (auto simp: nth_list_update)
      then show ?thesis using a l s(2) by auto
    qed
  qed
qed

lemma parse_content_range_data [simp]:
  "downloaded_data (parse_content_range cfg s result) = downloaded_data s"
  by (simp add: parse_content_range_def Let_def split: option.splits)

lemma set_data_keys_subset:
  "set (map_keys (downloaded_data (set_data cfg s b d))) \<subseteq> insert b (set (map_keys (downloaded_data s)))"
proof -
  have "fst ` set (downloaded_data (set_data cfg s b d)) \<subseteq> fst ` insert (b, d) (set (downloaded_data s))"
    using set_data_subset [of cfg s b d] by (rule image_mono)
  then show ?thesis by (simp add: map_keys_def)
qed

lemma ranged_download_result_keys:
  "set (map_keys (downloaded_data (ranged_download_result cfg s b result)))
     \<subseteq> insert b (set (map_keys (downloaded_data s)))"
proof -
  let ?s0 = "s\<lparr>url := redirected_url result\<rparr>"
  let ?t = "if \<not> ready ?s0 then parse_content_range cfg ?s0 result else ?s0"
  have d: "downloaded_data ?t = downloaded_data s" by simp
  have "set (map_keys (downloaded_data (set_data cfg ?t b (data result))))
      \<subseteq> insert b (set (map_keys (downloaded_data ?t)))"
    by (rule set_data_keys_subset)
  then have "set (map_keys (downloaded_data (set_data cfg ?t b (data result))))
      \<subseteq> insert b (set (map_keys (downloaded_data s)))" unfolding d .
  then show ?thesis
    by (auto simp: ranged_download_result_def Let_def)
qed

lemma choose_block_reading_window:
  assumes M: "MAX_FORWARD_READ_BLOCKS cfg \<noteq> 0"
    and sel: "selectable cfg rh s"
    and nw: "\<not> whole_download s"
    and ch: "choose_block_reading cfg s rh = Some b"
  shows "unat b < unat (rh div BLOCK_SIZE cfg) + unat (MAX_FORWARD_READ_BLOCKS cfg)"
proof -
  let ?r = "rh div BLOCK_SIZE cfg"
  have start: "unat ?r < unat ?r + unat (MAX_FORWARD_READ_BLOCKS cfg)"
    using M by (simp add: unat_gt_0)
  show ?thesis
  proof (cases "ready s")
    case False
    then have "b = ?r" using ch by (simp add: choose_block_reading_def Let_def)
    then show ?thesis using start by simp
  next
    case True
    then have ne: "first_not_downloaded_block cfg s ?r ?r \<noteq> ?r + MAX_FORWARD_READ_BLOCKS cfg"
      using sel unfolding selectable_def by blast
    have "b = next_block_reading s ?r"
      using ch True by (simp add: choose_block_reading_def Let_def split: if_splits)
    then have "b = first_not_downloaded_block cfg s ?r ?r"
      using first_not_downloaded_block_next [OF ne] by simp
    then show ?thesis using first_not_downloaded_block_window [OF start ne] by simp
  qed
qed

text \<open>
  One tick: whatever the fetcher answers, a block that the tick adds to the cache of a
  ranged stream has an index below \<open>cursor_block + MAX_FORWARD_READ_BLOCKS\<close>, where
  \<open>cursor_block\<close> is \<open>read_head / BLOCK_SIZE\<close> for the read head the tick started with.
\<close>

lemma forward_window_respected:
  assumes M: "MAX_FORWARD_READ_BLOCKS cfg \<noteq> 0"
    and tick: "downloader_tick cfg http d = Some d'"
    and i: "i < length (streams d)"
    and s: "streams d ! i = Some s"
    and nw: "\<not> whole_download s"
    and s': "streams d' ! i = Some s'"
    and k: "k \<in> set (map_keys (downloaded_data s'))" "k \<notin> set (map_keys (downloaded_data s))"
  shows "unat k < unat (read_head s div BLOCK_SIZE cfg) + unat (MAX_FORWARD_READ_BLOCKS cfg)"
proof -
  let ?rhs = "backup_read_heads (streams d)"
  obtain ss cur where fns: "find_next_stream cfg ?rhs 0 (streams d) (Finite 1000) None = (ss, cur)"
    by (cases "find_next_stream cfg ?rhs 0 (streams d) (Finite 1000) None")
  from find_next_stream_slots [of cfg ?rhs 0 "streams d" "Finite 1000" None]
  have len: "length ss = length (streams d)"
    and slots: "\<forall>j<length (streams d). ss ! j = streams d ! j \<or> ss ! j = None"
    by (simp_all add: fns)
  have other: "\<And>d'' j x. streams d'' = ss[j := x] \<Longrightarrow> j \<noteq> i \<Longrightarrow> streams d'' ! i = Some s' \<Longrightarrow> s' = s"
  proof -
    fix d'' j x assume "streams d'' = ss[j := x]" "j \<noteq> i" "streams d'' ! i = Some s'"
    then have "ss ! i = Some s'" by simp
    then show "s' = s" using slots i s by auto
  qed
  show ?thesis
  proof (cases cur)
    case None
    then have "d' = d\<lparr>streams := ss\<rparr>" using tick by (simp add: downloader_tick_def fns)
    then have "ss ! i = Some s'" using s' by simp
    then have "s' = s" using slots i s by auto
    then show ?thesis using k by simp
  next
    case (Some j)
    have "snd (find_next_stream cfg ?rhs 0 (streams d) (Finite 1000) None) = Some j"
      by (simp add: fns Some)
    from find_next_stream_selected [OF this] obtain sj where
      j: "j < length (streams d)" and sj: "streams d ! j = Some sj"
      and sel: "selectable cfg (?rhs ! j) sj" by auto
    have rh: "?rhs ! j = read_head sj" using j sj by (rule backup_read_heads_nth)
    have ssj: "ss ! j = Some sj"
    proof (cases "ss ! j")
      case None
      then show ?thesis using tick by (simp add: downloader_tick_def fns Some)
    next
      case (Some a)
      then show ?thesis using slots j sj by auto
    qed
    show ?thesis
    proof (cases "i = j")
      case False
      have "\<exists>x. streams d' = ss[j := x]"
        using tick by (auto simp: downloader_tick_def fns Some ssj split: if_splits option.splits)
      then obtain x where "streams d' = ss[j := x]" by blast
      from other [OF this _ s'] False have "s' = s" by simp
      then show ?thesis using k by simp
    next
      case True
      then have eq: "sj = s" using s sj by simp
      show ?thesis
      proof (cases "choose_block_reading cfg s (read_head s)")
        case None
        then have "streams d' = ss[j := Some (s\<lparr>error := True\<rparr>)]"
          using tick nw by (auto simp: downloader_tick_def fns Some ssj eq rh)
        then have "s' = s\<lparr>error := True\<rparr>" using s' True j len by simp
        then show ?thesis using k by simp
      next
        case (Some b)
        then have "streams d' = ss[j := Some (ranged_download_result cfg s b
            (http (url s) (range_header cfg s b)))]"
          using tick nw by (auto simp: downloader_tick_def fns \<open>cur = Some j\<close> ssj eq rh)
        then have "s' = ranged_download_result cfg s b (http (url s) (range_header cfg s b))"
          using s' True j len by simp
        then have "k = b" using k ranged_download_result_keys [of cfg s b] by blast
        moreover have "unat b < unat (read_head s div BLOCK_SIZE cfg) + unat (MAX_FORWARD_READ_BLOCKS cfg)"
          using M sel nw Some unfolding rh eq by (rule choose_block_reading_window)
        ultimately show ?thesis by simp
      qed
    qed
  qed
qed

lemma forward_window_respected_example:
  "map_option (\<lambda>d. map (map_option (\<lambda>s. map_keys (downloaded_data s))) (streams d))
       (downloader_tick demo_config demo_http_ok demo_downloader) = Some [None, Some [0, 5]]
   \<and> map_keys (downloaded_data demo_stream) = [5, 6]
   \<and> unat (0 :: u64) < unat (read_head demo_stream div BLOCK_SIZE demo_config)
                         + unat (MAX_FORWARD_READ_BLOCKS demo_config)"
proof -
  have M: "MAX_FORWARD_READ_BLOCKS demo_config \<noteq> 0" by (simp add: demo_config_def)
  have t: "map_option (\<lambda>d. map (map_option (\<lambda>s. map_keys (downloaded_data s))) (streams d))
       (downloader_tick demo_config demo_http_ok demo_downloader) = Some [None, Some [0, 5]]"
    by code_simp
  then obtain d' where d': "downloader_tick demo_config demo_http_ok demo_downloader = Some d'"
    and st: "map (map_option (\<lambda>s. map_keys (downloaded_data s))) (streams d') = [None, Some [0, 5]]"
    by auto
  from st obtain s' where s': "streams d' ! 1 = Some s'" and ks: "map_keys (downloaded_data s') = [0, 5]"
    by (cases "streams d'") (auto simp: map_eq_Cons_conv)
  have i: "1 < length (streams demo_downloader)" by (simp add: demo_downloader_def)
  have s: "streams demo_downloader ! 1 = Some demo_stream" by (simp add: demo_downloader_def)
  have nw: "\<not> whole_download demo_stream" by (simp add: demo_stream_def)
  have k1: "0 \<in> set (map_keys (downloaded_data s'))" by (simp add: ks)
  have k2: "0 \<notin> set (map_keys (downloaded_data demo_stream))" by (simp add: demo_stream_def)
  from forward_window_respected [OF M d' i s nw s' k1 k2]
  have "unat (0 :: u64) < unat (read_head demo_stream div BLOCK_SIZE demo_config)
                         + unat (MAX_FORWARD_READ_BLOCKS demo_config)" .
  moreover have "map_keys (downloaded_data demo_stream) = [5, 6]" by (simp add: demo_stream_def)
  ultimately show ?thesis using t by simp
qed

lemma set_data_whole_download [simp]:
  "whole_download (set_data cfg s b d) = whole_download s"
  by (simp add: set_data_def Let_def)

lemma store_whole_data_flag:
  assumes "store_whole_data cfg dat i s = Some s'"
  shows "whole_download s' = whole_download s"
proof (rule store_whole_data.raw_induct
    [where P = "\<lambda>cfg dat i s s'. whole_download s' = whole_download s", OF _ assms])
  fix f :: "config \<Rightarrow> u8 list \<Rightarrow> nat \<Rightarrow> NetworkStream \<Rightarrow> NetworkStream option"
  fix cfg dat i s s'
  assume IH: "\<And>c d j t y. f c d j t = Some y \<Longrightarrow> whole_download y = whole_download t"
  assume eq: "(if i < length dat
      then let left = i;
               right = min (i + unat (BLOCK_SIZE cfg)) (length dat)
           in f cfg dat (i + unat (BLOCK_SIZE cfg))
               (set_data cfg s (word_of_nat (i div unat (BLOCK_SIZE cfg))) (slice dat left right))
      else Some s) = Some s'"
  show "whole_download s' = whole_download s"
  proof (cases "i < length dat")
    case True
    then have "f cfg dat (i + unat (BLOCK_SIZE cfg))
        (set_data cfg s (word_of_nat (i div unat (BLOCK_SIZE cfg)))
           (slice dat i (min (i + unat (BLOCK_SIZE cfg)) (length dat)))) = Some s'"
      using eq by (simp add: Let_def)
    from IH [OF this] show ?thesis by simp
  next
    case False
    then show ?thesis using eq by simp
  qed
qed

lemma whole_download_result_flag:
  "whole_download_result cfg s result = Some s' \<Longrightarrow> whole_download s' = whole_download s"
  by (auto simp: whole_download_result_def acquire_headers_def Let_def
      split: if_splits option.splits dest!: store_whole_data_flag)

lemma ranged_download_result_flag [simp]:
  "whole_download (ranged_download_result cfg s b result) = whole_download s"
  by (simp add: ranged_download_result_def parse_content_range_def Let_def split: option.splits)

lemma downloader_tick_slots:
  assumes tick: "downloader_tick cfg http d = Some d'"
  shows "length (streams d') = length (streams d)
     \<and> (\<forall>i<length (streams d). \<forall>s'. streams d' ! i = Some s' \<longrightarrow>
           (\<exists>s. streams d ! i = Some s \<and> whole_download s' = whole_download s))"
proof -
  let ?rhs = "backup_read_heads (streams d)"
  obtain ss cur where fns: "find_next_stream cfg ?rhs 0 (streams d) (Finite 1000) None = (ss, cur)"
    by (cases "find_next_stream cfg ?rhs 0 (streams d) (Finite 1000) None")
  from find_next_stream_slots [of cfg ?rhs 0 "streams d" "Finite 1000" None]
  have len: "length ss = length (streams d)"
    and slots: "\<forall>j<length (streams d). ss ! j = streams d ! j \<or> ss ! j = None"
    by (simp_all add: fns)
  have keep: "\<And>i s'. i < length (streams d) \<Longrightarrow> ss ! i = Some s' \<Longrightarrow>
      \<exists>s. streams d ! i = Some s \<and> whole_download s' = whole_download s"
    using slots by force
  show ?thesis
  proof (cases cur)
    case None
    then have "d' = d\<lparr>streams := ss\<rparr>" using tick by (simp add: downloader_tick_def fns)
    then show ?thesis using len keep by simp
  next
    case (Some j)
    have "snd (find_next_stream cfg ?rhs 0 (streams d) (Finite 1000) None) = Some j"
      by (simp add: fns Some)
    from find_next_stream_selected [OF this] obtain sj where
      j: "j < length (streams d)" and sj: "streams d ! j = Some sj" by auto
    have ssj: "ss ! j = Some sj"
    proof (cases "ss ! j")
      case None
      then show ?thesis using tick by (simp add: downloader_tick_def fns Some)
    next
      case (Some a)
      then show ?thesis using slots j sj by auto
    qed
    have "\<exists>x. streams d' = ss[j := Some x] \<and> whole_download x = whole_download sj"
      using tick
      by (auto simp: downloader_tick_def fns Some ssj
          split: if_splits option.splits dest: whole_download_result_flag)
    then obtain x where x: "streams d' = ss[j := Some x]" "whole_download x = whole_download sj"
      by blast
    have "\<forall>i<length (streams d). \<forall>s'. streams d' ! i = Some s' \<longrightarrow>
           (\<exists>s. streams d ! i = Some s \<and> whole_download s' = whole_download s)"
    proof (intro allI impI)
      fix i s' assume i: "i < length (streams d)" and s': "streams d' ! i = Some s'"
      show "\<exists>s. streams d ! i = Some s \<and> whole_download s' = whole_download s"
      proof (cases "i = j")
        case True
        then have "s' = x" using s' x(1) j len by simp
        then show ?thesis using True sj x(2) by simp
      next
        case False
        then have "ss ! i = Some s'" using s' x(1) by simp
        then show ?thesis using keep i by blast
      qed
    qed
    then show ?thesis using x(1) len by simp
  qed
qed

text \<open>
  C3. In every reachable state, every block in the cache of a ranged stream has an
  index below \<open>cursor_block + MAX_FORWARD_READ_BLOCKS\<close>, where \<open>cursor_block\<close> is the block
  of the read head at the start of the tick that fetched the block (the forward window
  is not empty: \<open>MAX_FORWARD_READ_BLOCKS\<close> is not 0).
\<close>

theorem cached_blocks_within_forward_window:
  assumes M: "MAX_FORWARD_READ_BLOCKS cfg \<noteq> 0"
    and r: "reachable cfg (d, g)"
  shows "\<forall>i s k. slot d i = Some s \<and> \<not> whole_download s
            \<and> k \<in> set (map_keys (downloaded_data s)) \<longrightarrow>
          (\<exists>c. g (i, k) = Some c \<and> unat k < unat c + unat (MAX_FORWARD_READ_BLOCKS cfg))"
  using r
proof (induction "(d, g)" arbitrary: d g rule: reachable.induct)
  case (start d)
  then show ?case by auto
next
  case (tick d g http d')
  note sl = downloader_tick_slots [OF tick.hyps(3)]
  show ?case
  proof (intro allI impI)
    fix i s' k
    assume a: "slot d' i = Some s' \<and> \<not> whole_download s'
        \<and> k \<in> set (map_keys (downloaded_data s'))"
    then have i': "i < length (streams d')" and s': "streams d' ! i = Some s'"
      by (auto simp: slot_def split: if_splits)
    then have i: "i < length (streams d)" using sl by simp
    from sl i s' obtain s where s: "streams d ! i = Some s"
      and w: "whole_download s' = whole_download s" by blast
    have sd: "slot d i = Some s" using i s by (simp add: slot_def)
    have sd': "slot d' i = Some s'" using a by simp
    have nw: "\<not> whole_download s" using a w by simp
    show "\<exists>c. note_fetches cfg d d' g (i, k) = Some c
        \<and> unat k < unat c + unat (MAX_FORWARD_READ_BLOCKS cfg)"
    proof (cases "k \<in> set (map_keys (downloaded_data s))")
      case True
      then have "note_fetches cfg d d' g (i, k) = g (i, k)"
        by (simp add: note_fetches_def sd sd')
      then show ?thesis using tick.hyps(2) sd nw True by auto
    next
      case False
      then have "note_fetches cfg d d' g (i, k) = Some (read_head s div BLOCK_SIZE cfg)"
        using a by (simp add: note_fetches_def sd sd')
      moreover have "unat k < unat (read_head s div BLOCK_SIZE cfg) + unat (MAX_FORWARD_READ_BLOCKS cfg)"
        using M tick.hyps(3) i s nw s' _ False by (rule forward_window_respected) (use a in simp)
      ultimately show ?thesis by simp
    qed
  qed
next
  case (env d g d')
  show ?case
  proof (intro allI impI)
    fix i s' k
    assume a: "slot d' i = Some s' \<and> \<not> whole_download s'
        \<and> k \<in> set (map_keys (downloaded_data s'))"
    from a have "slot d' i = Some s'" by simp
    with env.hyps(3) have e: "case slot d i of
           Some s \<Rightarrow> whole_download s' = whole_download s
                      \<and> downloaded_data s' = downloaded_data s
         | None \<Rightarrow> downloaded_data s' = []"
      unfolding env_step_def by blast
    show "\<exists>c. g (i, k) = Some c \<and> unat k < unat c + unat (MAX_FORWARD_READ_BLOCKS cfg)"
    proof (cases "slot d i")
      case None
      then have "downloaded_data s' = []" using e by simp
      then show ?thesis using a by simp
    next
      case (Some s)
      then have "whole_download s' = whole_download s \<and> downloaded_data s' = downloaded_data s"
        using e by simp
      then show ?thesis using env.hyps(2) Some a by auto
    qed
  qed
qed

theorem cached_blocks_within_forward_window_witness:
  "\<exists>d'. downloader_tick demo_config demo_http_ok demo_downloader_empty = Some d'
     \<and> reachable demo_config (d', note_fetches demo_config demo_downloader_empty d' (\<lambda>x. None))
     \<and> map (map_option (\<lambda>s. map_keys (downloaded_data s))) (streams d') = [None, Some [0]]
     \<and> (\<exists>c. note_fetches demo_config demo_downloader_empty d' (\<lambda>x. None) (1, 0) = Some c
            \<and> unat (0 :: u64) < unat c + unat (MAX_FORWARD_READ_BLOCKS demo_config))"
proof -
  have M: "MAX_FORWARD_READ_BLOCKS demo_config \<noteq> 0" by (simp add: demo_config_def)
  have t: "map_option (\<lambda>d. map (map_option (\<lambda>s. (whole_download s, map_keys (downloaded_data s)))) (streams d))
       (downloader_tick demo_config demo_http_ok demo_downloader_empty) = Some [None, Some (False, [0])]"
    by code_simp
  then obtain d' where d': "downloader_tick demo_config demo_http_ok demo_downloader_empty = Some d'"
    and st: "map (map_option (\<lambda>s. (whole_download s, map_keys (downloaded_data s)))) (streams d')
        = [None, Some (False, [0])]"
    by auto
  from st obtain s' where l: "length (streams d') = 2" and s': "streams d' ! 1 = Some s'"
    and ks: "map_keys (downloaded_data s') = [0]" and nw: "\<not> whole_download s'"
    by (cases "streams d'") (auto simp: map_eq_Cons_conv)
  have st2: "map (map_option (\<lambda>s. map_keys (downloaded_data s))) (streams d') = [None, Some [0]]"
    using st by (auto simp: map_eq_Cons_conv)
  have "\<forall>i s. slot demo_downloader_empty i = Some s \<longrightarrow> downloaded_data s = []"
    by (auto simp: slot_def demo_downloader_empty_def demo_empty_def nth_Cons split: nat.splits if_splits)
  then have "reachable demo_config (demo_downloader_empty, \<lambda>x. None)" by (rule reachable.start)
  then have r: "reachable demo_config (d', note_fetches demo_config demo_downloader_empty d' (\<lambda>x. None))"
    using d' by (rule reachable.tick)
  have sl: "slot d' 1 = Some s'" using l s' by (simp add: slot_def)
  have k: "0 \<in> set (map_keys (downloaded_data s'))" by (simp add: ks)
  from cached_blocks_within_forward_window [OF M r] sl nw k
  have c: "\<exists>c. note_fetches demo_config demo_downloader_empty d' (\<lambda>x. None) (1, 0) = Some c
            \<and> unat (0 :: u64) < unat c + unat (MAX_FORWARD_READ_BLOCKS demo_config)"
    by blast
  show ?thesis
  proof (intro exI [of _ d'] conjI)
    show "downloader_tick demo_config demo_http_ok demo_downloader_empty = Some d'" by (rule d')
    show "reachable demo_config (d', note_fetches demo_config demo_downloader_empty d' (\<lambda>x. None))"
      by (rule r)
    show "map (map_option (\<lambda>s. map_keys (downloaded_data s))) (streams d') = [None, Some [0]]"
      by (rule st2)
    show "\<exists>c. note_fetches demo_config demo_downloader_empty d' (\<lambda>x. None) (1, 0) = Some c
            \<and> unat (0 :: u64) < unat c + unat (MAX_FORWARD_READ_BLOCKS demo_config)"
      by (rule c)
  qed
qed

end
